theory Spec2Isabelle
  imports Complex_Main "HOL-Library.AList"
begin

section \<open>Chunked raster-to-table extraction: data model\<close>

text \<open>
  The development follows \<^verbatim>\<open>data_processer_4.py\<close> (class
  \<^verbatim>\<open>SingleYearCDLProcessor\<close>: checkpoint tracker, chunk extractor, chunk store,
  scan driver) and \<^verbatim>\<open>merge_chunk.py\<close> (validate, merge, verify, clean up).
  Python integers are \<open>int\<close>. Coordinates are Python floats; they are only compared and
  passed through externally supplied transformations, so they are taken as \<open>real\<close> and
  the transformations as parameters.
\<close>

datatype py_error =
    ZeroDivisionError | RasterioIOError | JSONDecodeError | KeyError | FileNotFoundError

text \<open>\<^verbatim>\<open>rasterio.windows.Window(col_off, row_off, width, height)\<close>.\<close>

record window =
  col_off :: int
  row_off :: int
  width :: int
  height :: int

text \<open>One row of a chunk data frame: the columns
  \<^verbatim>\<open>year, crop_code, longitude, latitude, crop_name\<close>. A code missing from the
  lookup table gives a missing name (\<open>None\<close>).\<close>

record cdl_row =
  yr :: int
  crop_code :: int
  longitude :: real
  latitude :: real
  crop_name :: "string option"

text \<open>The opened raster: its size, the band reader (\<open>None\<close> when
  \<^verbatim>\<open>src.read\<close> raises) and \<^verbatim>\<open>rasterio.transform.xy(src.transform, row, col)\<close>.\<close>

record raster =
  src_height :: int
  src_width :: int
  src_read :: "window \<Rightarrow> int list list option"
  src_xy :: "int \<Rightarrow> int \<Rightarrow> real \<times> real"

datatype tif_file = Undecodable | Raster raster

text \<open>The checkpoint dictionary \<^verbatim>\<open>{'last_chunk': ..., 'status': ...}\<close>.\<close>

record checkpoint =
  last_chunk :: int
  status :: string

text \<open>What \<^verbatim>\<open>progress.json\<close> holds on disk: a complete JSON document, or the empty
  or partial text that \<^verbatim>\<open>open(..., 'w')\<close> leaves until the dump is written out.\<close>

datatype json_file = Json_doc checkpoint | Incomplete

text \<open>A chunk file \<^verbatim>\<open>chunk_NNNNN.csv.gz\<close>: readable in full; readable for the
  one-row probe but failing on a full read; or unreadable.\<close>

datatype gz_file = Csv "cdl_row list" | Truncated "cdl_row list" | Corrupt

record metadata =
  md_total_records :: nat
  md_year :: int
  md_num_chunks_processed :: nat

text \<open>The consolidated HDF5 store: the table \<^verbatim>\<open>data\<close> (absent until the first
  non-empty append) and the metadata attached to it.\<close>

record h5_store =
  h5_data :: "cdl_row list option"
  h5_metadata :: "metadata option"

text \<open>The part of the file system the two programs touch, for one year. Chunk files and
  quarantined files are kept by chunk number; \<open>corrupted = None\<close> when the quarantine
  directory does not exist.\<close>

record fs =
  tif :: "tif_file option"
  final_csv_gz :: bool
  final_h5 :: "h5_store option"
  chunks_dir :: bool
  progress_json :: "json_file option"
  chunk_files :: "(int \<times> gz_file) list"
  corrupted :: "(int \<times> gz_file) list option"

record bounds =
  west :: real
  east :: real
  north :: real
  south :: real

text \<open>The immutable attributes of a \<^verbatim>\<open>SingleYearCDLProcessor\<close>.\<close>

record processor =
  year :: int
  chunk_size :: int
  transformer :: "real \<times> real \<Rightarrow> real \<times> real"
  transformer_inverse :: "real \<times> real \<Rightarrow> real \<times> real"

text \<open>The trace of input and output actions of a scan, in the order they happen.\<close>

datatype event =
    Read_window int window
  | Write_chunk int "cdl_row list"
  | Save_progress int

text \<open>The mutable part: \<^verbatim>\<open>self.progress\<close>, the disk, the loop counter
  \<^verbatim>\<open>chunk_num\<close> and the trace.\<close>

record scan_state =
  progress :: checkpoint
  disk :: fs
  chunk_num :: int
  trace :: "event list"

section \<open>Constants\<close>

definition CA_BOUNDS :: bounds where
  "CA_BOUNDS = \<lparr>west = - 124482003 / 1000000, east = - 114131211 / 1000000,
     north = 42009517 / 1000000, south = 32534156 / 1000000\<rparr>"

definition CDL_CROP_MAPPING :: "(int \<times> string) list" where
  "CDL_CROP_MAPPING =
  [(0, ''Background''),
   (1, ''Corn''),
   (2, ''Cotton''),
   (3, ''Rice''),
   (4, ''Sorghum''),
   (5, ''Soybeans''),
   (6, ''Sunflower''),
   (10, ''Peanuts''),
   (11, ''Tobacco''),
   (12, ''Sweet Corn''),
   (13, ''Pop or Orn Corn''),
   (14, ''Mint''),
   (21, ''Barley''),
   (22, ''Durum Wheat''),
   (23, ''Spring Wheat''),
   (24, ''Winter Wheat''),
   (25, ''Other Small Grains''),
   (26, ''Dbl Crop WinWht/Soybeans''),
   (27, ''Rye''),
   (28, ''Oats''),
   (29, ''Millet''),
   (30, ''Speltz''),
   (31, ''Canola''),
   (32, ''Flaxseed''),
   (33, ''Safflower''),
   (34, ''Rape Seed''),
   (35, ''Mustard''),
   (36, ''Alfalfa''),
   (37, ''Other Hay/Non Alfalfa''),
   (38, ''Camelina''),
   (39, ''Buckwheat''),
   (41, ''Sugarbeets''),
   (42, ''Dry Beans''),
   (43, ''Potatoes''),
   (44, ''Other Crops''),
   (45, ''Sugarcane''),
   (46, ''Sweet Potatoes''),
   (47, ''Misc Vegs & Fruits''),
   (48, ''Watermelons''),
   (49, ''Onions''),
   (50, ''Cucumbers''),
   (51, ''Chick Peas''),
   (52, ''Lentils''),
   (53, ''Peas''),
   (54, ''Tomatoes''),
   (55, ''Caneberries''),
   (56, ''Hops''),
   (57, ''Herbs''),
   (58, ''Clover/Wildflowers''),
   (59, ''Sod/Grass Seed''),
   (60, ''Switchgrass''),
   (61, ''Fallow/Idle Cropland''),
   (62, ''Pasture/Grass''),
   (63, ''Forest''),
   (64, ''Shrubland''),
   (65, ''Barren''),
   (66, ''Cherries''),
   (67, ''Peaches''),
   (68, ''Apples''),
   (69, ''Grapes''),
   (70, ''Christmas Trees''),
   (71, ''Other Tree Crops''),
   (72, ''Citrus''),
   (74, ''Pecans''),
   (75, ''Almonds''),
   (76, ''Walnuts''),
   (77, ''Pears''),
   (81, ''Clouds/No Data''),
   (82, ''Developed''),
   (83, ''Water''),
   (87, ''Wetlands''),
   (88, ''Nonag/Undefined''),
   (92, ''Aquaculture''),
   (111, ''Open Water''),
   (112, ''Perennial Ice/Snow''),
   (121, ''Developed/Open Space''),
   (122, ''Developed/Low Intensity''),
   (123, ''Developed/Med Intensity''),
   (124, ''Developed/High Intensity''),
   (131, ''Barren''),
   (141, ''Deciduous Forest''),
   (142, ''Evergreen Forest''),
   (143, ''Mixed Forest''),
   (152, ''Shrubland''),
   (176, ''Grassland/Pasture''),
   (190, ''Woody Wetlands''),
   (195, ''Herbaceous Wetlands''),
   (204, ''Pistachios''),
   (205, ''Triticale''),
   (206, ''Carrots''),
   (207, ''Asparagus''),
   (208, ''Garlic''),
   (209, ''Cantaloupes''),
   (210, ''Prunes''),
   (211, ''Olives''),
   (212, ''Oranges''),
   (213, ''Honeydew Melons''),
   (214, ''Broccoli''),
   (215, ''Avocados''),
   (216, ''Peppers''),
   (217, ''Pomegranates''),
   (218, ''Nectarines''),
   (219, ''Greens''),
   (220, ''Plums''),
   (221, ''Strawberries''),
   (222, ''Squash''),
   (223, ''Apricots''),
   (224, ''Vetch''),
   (225, ''Dbl Crop WinWht/Corn''),
   (226, ''Dbl Crop Oats/Corn''),
   (227, ''Lettuce''),
   (228, ''Dbl Crop Triticale/Corn''),
   (229, ''Pumpkins''),
   (230, ''Dbl Crop Lettuce/Durum Wht''),
   (231, ''Dbl Crop Lettuce/Cantaloupe''),
   (232, ''Dbl Crop Lettuce/Cotton''),
   (233, ''Dbl Crop Lettuce/Barley''),
   (234, ''Dbl Crop Durum Wht/Sorghum''),
   (235, ''Dbl Crop Barley/Sorghum''),
   (236, ''Dbl Crop WinWht/Sorghum''),
   (237, ''Dbl Crop Barley/Corn''),
   (238, ''Dbl Crop WinWht/Cotton''),
   (239, ''Dbl Crop Soybeans/Cotton''),
   (240, ''Dbl Crop Soybeans/Oats''),
   (241, ''Dbl Crop Corn/Soybeans''),
   (242, ''Blueberries''),
   (243, ''Cabbage''),
   (244, ''Cauliflower''),
   (245, ''Celery''),
   (246, ''Radishes''),
   (247, ''Turnips''),
   (248, ''Eggplants''),
   (249, ''Gourds''),
   (250, ''Cranberries''),
   (254, ''Dbl Crop Barley/Soybeans'')]"

section \<open>Checkpoint tracker\<close>

definition json_load :: "json_file \<Rightarrow> py_error + checkpoint" where
  "json_load f = (case f of Json_doc p \<Rightarrow> Inr p | Incomplete \<Rightarrow> Inl JSONDecodeError)"

definition load_progress :: "fs \<Rightarrow> py_error + checkpoint" where
  "load_progress d =
     (case progress_json d of
        Some f \<Rightarrow> json_load f
      | None \<Rightarrow> Inr \<lparr>last_chunk = 0, status = ''processing''\<rparr>)"

text \<open>\<^verbatim>\<open>save_progress\<close> in its three steps: the assignment to the dictionary, the
  \<^verbatim>\<open>open(..., 'w')\<close> that creates or truncates the file, and the dump that is on disk
  once the \<^verbatim>\<open>with\<close> block has closed the file.\<close>

definition save_assign :: "int \<Rightarrow> scan_state \<Rightarrow> scan_state" where
  "save_assign chunk st = st\<lparr>progress := (progress st)\<lparr>last_chunk := chunk\<rparr>\<rparr>"

definition save_open :: "scan_state \<Rightarrow> scan_state" where
  "save_open st = st\<lparr>disk := (disk st)\<lparr>progress_json := Some Incomplete\<rparr>\<rparr>"

definition save_dump :: "scan_state \<Rightarrow> scan_state" where
  "save_dump st = st\<lparr>disk := (disk st)\<lparr>progress_json := Some (Json_doc (progress st))\<rparr>\<rparr>"

definition save_progress :: "int \<Rightarrow> scan_state \<Rightarrow> scan_state" where
  "save_progress chunk st =
     (save_dump (save_open (save_assign chunk st)))\<lparr>trace := trace st @ [Save_progress chunk]\<rparr>"

text \<open>A save that the process does not survive: only the first \<open>k\<close> of the three steps
  have taken effect.\<close>

definition save_progress_crashed :: "nat \<Rightarrow> int \<Rightarrow> scan_state \<Rightarrow> scan_state" where
  "save_progress_crashed k chunk st =
     (if k = 0 then st
      else if k = 1 then save_assign chunk st
      else if k = 2 then save_open (save_assign chunk st)
      else save_progress chunk st)"

text \<open>A sequence of saves, and the values a load would return after each of them.\<close>

fun save_all :: "int list \<Rightarrow> scan_state \<Rightarrow> scan_state" where
  "save_all [] st = st"
| "save_all (c # cs) st = save_all cs (save_progress c st)"

fun loads_after :: "int list \<Rightarrow> scan_state \<Rightarrow> (py_error + checkpoint) list" where
  "loads_after [] st = []"
| "loads_after (c # cs) st =
     load_progress (disk (save_progress c st)) # loads_after cs (save_progress c st)"

definition loaded_values :: "int list \<Rightarrow> scan_state \<Rightarrow> int list" where
  "loaded_values cs st =
     concat (map (\<lambda>r. case r of Inr p \<Rightarrow> [last_chunk p] | Inl e \<Rightarrow> []) (loads_after cs st))"

section \<open>Region filter\<close>

definition get_ca_bounds_5070 :: "processor \<Rightarrow> bounds" where
  "get_ca_bounds_5070 self =
     (let (w, n) = transformer_inverse self (west CA_BOUNDS, north CA_BOUNDS);
          (e, s) = transformer_inverse self (east CA_BOUNDS, south CA_BOUNDS)
      in \<lparr>west = w, east = e, north = n, south = s\<rparr>)"

definition is_in_california :: "processor \<Rightarrow> real \<times> real \<Rightarrow> bool" where
  "is_in_california self p =
     (case p of (x, y) \<Rightarrow>
        west (get_ca_bounds_5070 self) \<le> x \<and> x \<le> east (get_ca_bounds_5070 self) \<and>
        south (get_ca_bounds_5070 self) \<le> y \<and> y \<le> north (get_ca_bounds_5070 self))"

section \<open>Chunk extractor\<close>

text \<open>Arrays are lists of rows. \<open>meshgrid_ravel\<close> is the pair of raveled index arrays
  of \<^verbatim>\<open>np.meshgrid(range(row_off, row_off + height), range(col_off, col_off + width),
  indexing='ij')\<close>, zipped: the window's cells in row-major order.\<close>

definition meshgrid_ravel :: "window \<Rightarrow> (int \<times> int) list" where
  "meshgrid_ravel w =
     concat (map (\<lambda>r. map (\<lambda>c. (r, c)) [col_off w .. col_off w + width w - 1])
       [row_off w .. row_off w + height w - 1])"

definition shape :: "'a list list \<Rightarrow> nat \<times> nat" where
  "shape a = (length a, case a of [] \<Rightarrow> 0 | r # _ \<Rightarrow> length r)"

text \<open>\<^verbatim>\<open>np.array(xs).reshape(shape)\<close>: \<open>None\<close> for the \<^verbatim>\<open>ValueError\<close> of a
  size that does not fit.\<close>

definition reshape :: "nat \<times> nat \<Rightarrow> 'a list \<Rightarrow> 'a list list option" where
  "reshape sh xs =
     (case sh of (m, n) \<Rightarrow>
        if length xs = m * n then Some (map (\<lambda>i. take n (drop (i * n) xs)) [0..<m])
        else None)"

definition np_any :: "bool list list \<Rightarrow> bool" where
  "np_any m = list_ex (list_ex id) m"

text \<open>\<^verbatim>\<open>np.nonzero\<close> of a two-dimensional mask: the indices of its true entries, in
  row-major order.\<close>

definition nonzero :: "bool list list \<Rightarrow> (int \<times> int) list" where
  "nonzero m =
     concat (map (\<lambda>(i, row). map (\<lambda>(j, b). (int i, int j)) (filter snd (enumerate 0 row)))
       (enumerate 0 m))"

text \<open>Boolean-mask indexing \<^verbatim>\<open>a[mask]\<close>.\<close>

definition mask_select :: "'a list list \<Rightarrow> bool list list \<Rightarrow> 'a list" where
  "mask_select a m = concat (map (\<lambda>(row, mrow). map fst (filter snd (zip row mrow))) (zip a m))"

definition make_row :: "processor \<Rightarrow> raster \<Rightarrow> int \<Rightarrow> int \<times> int \<Rightarrow> cdl_row" where
  "make_row self src code cell =
     (let (lon, lat) = transformer self (src_xy src (fst cell) (snd cell))
      in \<lparr>yr = year self, crop_code = code, longitude = lon, latitude = lat,
          crop_name = map_of CDL_CROP_MAPPING code\<rparr>)"

text \<open>\<^verbatim>\<open>process_chunk\<close>. Every exception inside it is caught and turned into
  \<open>None\<close>: a failing read, and the \<^verbatim>\<open>reshape\<close> of the region mask to the shape of
  the data that was read.\<close>

definition process_chunk :: "processor \<Rightarrow> raster \<Rightarrow> window \<Rightarrow> cdl_row list option" where
  "process_chunk self src w =
     (case src_read src w of
        None \<Rightarrow> None
      | Some chunk_data \<Rightarrow>
         (case reshape (shape chunk_data)
                 (map (\<lambda>(r, c). is_in_california self (src_xy src r c)) (meshgrid_ravel w)) of
            None \<Rightarrow> None
          | Some ca_mask \<Rightarrow>
             (let valid_mask =
                    map (\<lambda>(row, mrow). map (\<lambda>(v, m). 0 < v \<and> m) (zip row mrow))
                      (zip chunk_data ca_mask)
              in if \<not> np_any valid_mask then None
                 else Some (map (\<lambda>(code, (i, j)). make_row self src code (i + row_off w, j + col_off w))
                         (zip (mask_select chunk_data valid_mask) (nonzero valid_mask))))))"

section \<open>Chunk store\<close>

text \<open>\<^verbatim>\<open>save_chunk\<close>: nothing for an empty frame, otherwise
  \<^verbatim>\<open>chunk_NNNNN.csv.gz\<close> is written (replacing a file of that name).\<close>

definition save_chunk :: "cdl_row list option \<Rightarrow> int \<Rightarrow> scan_state \<Rightarrow> scan_state" where
  "save_chunk df chunk st =
     (case df of
        None \<Rightarrow> st
      | Some rows \<Rightarrow>
          if length rows = 0 then st
          else st\<lparr>disk := (disk st)\<lparr>chunk_files := AList.update chunk (Csv rows) (chunk_files (disk st))\<rparr>,
                  trace := trace st @ [Write_chunk chunk rows]\<rparr>)"

section \<open>Scan driver\<close>

text \<open>\<^verbatim>\<open>range(start, stop, step)\<close> for a step that is not zero.\<close>

function range_list :: "int \<Rightarrow> int \<Rightarrow> int \<Rightarrow> int list" where
  "range_list start stop step =
     (if 0 < step \<and> start < stop then start # range_list (start + step) stop step
      else if step < 0 \<and> stop < start then start # range_list (start + step) stop step
      else [])"
  by pat_completeness auto
termination
  by (relation "measure (\<lambda>(start, stop, step). nat (if 0 < step then stop - start else start - stop))")
    auto

declare range_list.simps [simp del]

definition total_chunks :: "int \<Rightarrow> int \<Rightarrow> int \<Rightarrow> int" where
  "total_chunks h w cs = ((h + cs - 1) div cs) * ((w + cs - 1) div cs)"

text \<open>The windows the two nested loops build, in the order they build them.\<close>

definition scan_windows :: "int \<Rightarrow> int \<Rightarrow> int \<Rightarrow> window list" where
  "scan_windows h w cs =
     concat (map (\<lambda>y. map (\<lambda>x. \<lparr>col_off = x, row_off = y, width = min cs (w - x),
                                 height = min cs (h - y)\<rparr>) (range_list 0 w cs))
       (range_list 0 h cs))"

definition in_window :: "window \<Rightarrow> int \<Rightarrow> int \<Rightarrow> bool" where
  "in_window win r c =
     (row_off win \<le> r \<and> r < row_off win + height win \<and>
      col_off win \<le> c \<and> c < col_off win + width win)"

text \<open>One pass through the body of the inner loop, for the column offset \<open>x\<close> of the
  row band at \<open>y\<close>. The progress line written every 100 chunks has no effect on the
  state and is left out; its division by \<^verbatim>\<open>total_chunks\<close> cannot fail, since the
  body only runs for a positive chunk size and a positive height and width.\<close>

definition window_iter ::
  "processor \<Rightarrow> raster \<Rightarrow> int \<Rightarrow> int \<Rightarrow> int \<Rightarrow> scan_state \<Rightarrow> scan_state" where
  "window_iter self src start_chunk y x st =
     (let n = chunk_num st + 1;
          st1 = st\<lparr>chunk_num := n\<rparr>
      in if n \<le> start_chunk then st1
         else
           (let chunk_height = min (chunk_size self) (src_height src - y);
                chunk_width = min (chunk_size self) (src_width src - x);
                win = \<lparr>col_off = x, row_off = y, width = chunk_width, height = chunk_height\<rparr>;
                chunk_df = process_chunk self src win;
                st2 = st1\<lparr>trace := trace st1 @ [Read_window n win]\<rparr>;
                st3 = (if chunk_df \<noteq> None then save_chunk chunk_df n st2 else st2)
            in save_progress n st3))"

text \<open>\<^verbatim>\<open>process\<close>. It returns early when the final \<^verbatim>\<open>.csv.gz\<close> exists or the
  source file is missing; an exception inside the \<^verbatim>\<open>try\<close> is raised again.\<close>

definition process :: "processor \<Rightarrow> scan_state \<Rightarrow> py_error + scan_state" where
  "process self st =
     (if final_csv_gz (disk st) then Inr st
      else
        (case tif (disk st) of
           None \<Rightarrow> Inr st
         | Some Undecodable \<Rightarrow> Inl RasterioIOError
         | Some (Raster src) \<Rightarrow>
             (let start_chunk = last_chunk (progress st)
              in if chunk_size self = 0 then Inl ZeroDivisionError
                 else Inr (fold (\<lambda>y. fold (window_iter self src start_chunk y)
                                        (range_list 0 (src_width src) (chunk_size self)))
                             (range_list 0 (src_height src) (chunk_size self))
                             (st\<lparr>chunk_num := 0\<rparr>)))))"

text \<open>The constructor: it creates the chunk directory and loads the checkpoint.\<close>

definition init :: "fs \<Rightarrow> py_error + scan_state" where
  "init d =
     (let d1 = d\<lparr>chunks_dir := True\<rparr>
      in case load_progress d1 of
           Inl e \<Rightarrow> Inl e
         | Inr p \<Rightarrow> Inr \<lparr>progress = p, disk = d1, chunk_num = 0, trace = []\<rparr>)"

text \<open>\<^verbatim>\<open>main\<close>: construct the processor, then process.\<close>

definition run_scan :: "processor \<Rightarrow> fs \<Rightarrow> py_error + scan_state" where
  "run_scan self d = (case init d of Inl e \<Rightarrow> Inl e | Inr st \<Rightarrow> process self st)"

text \<open>The loop positions \<open>(y, x)\<close> in the order the nested loops visit them, and a scan
  whose process is killed when the first \<open>k\<close> passes through the loop body are complete.\<close>

definition loop_positions :: "processor \<Rightarrow> raster \<Rightarrow> (int \<times> int) list" where
  "loop_positions self src =
     concat (map (\<lambda>y. map (\<lambda>x. (y, x)) (range_list 0 (src_width src) (chunk_size self)))
       (range_list 0 (src_height src) (chunk_size self)))"

definition process_killed :: "nat \<Rightarrow> processor \<Rightarrow> scan_state \<Rightarrow> py_error + scan_state" where
  "process_killed k self st =
     (if final_csv_gz (disk st) then Inr st
      else
        (case tif (disk st) of
           None \<Rightarrow> Inr st
         | Some Undecodable \<Rightarrow> Inl RasterioIOError
         | Some (Raster src) \<Rightarrow>
             (let start_chunk = last_chunk (progress st)
              in if chunk_size self = 0 then Inl ZeroDivisionError
                 else Inr (fold (\<lambda>(y, x). window_iter self src start_chunk y x)
                             (take k (loop_positions self src))
                             (st\<lparr>chunk_num := 0\<rparr>)))))"

definition run_scan_killed :: "nat \<Rightarrow> processor \<Rightarrow> fs \<Rightarrow> py_error + scan_state" where
  "run_scan_killed k self d =
     (case init d of Inl e \<Rightarrow> Inl e | Inr st \<Rightarrow> process_killed k self st)"

section \<open>Merge, verify, clean up\<close>



text \<open>\<^verbatim>\<open>pd.read_csv(filepath, compression='gzip', nrows=1)\<close> inside
  \<^verbatim>\<open>validate_chunk_file\<close>; a file that is not there fails the probe as well.\<close>

definition validate_chunk_file :: "gz_file option \<Rightarrow> bool" where
  "validate_chunk_file f =
     (case f of Some (Csv rows) \<Rightarrow> True | Some (Truncated rows) \<Rightarrow> True | _ \<Rightarrow> False)"

text \<open>The full \<^verbatim>\<open>pd.read_csv(chunk_file, compression='gzip')\<close>; \<open>None\<close> when it
  raises.\<close>

definition read_csv :: "gz_file option \<Rightarrow> cdl_row list option" where
  "read_csv f = (case f of Some (Csv rows) \<Rightarrow> Some rows | _ \<Rightarrow> None)"





text \<open>\<^verbatim>\<open>store.append('data', df, ...)\<close>: an empty frame creates no table.\<close>

definition store_append :: "cdl_row list option \<Rightarrow> cdl_row list \<Rightarrow> cdl_row list option" where
  "store_append tbl df =
     (if df = [] then tbl else Some ((case tbl of None \<Rightarrow> [] | Some rows \<Rightarrow> rows) @ df))"








section \<open>Reading a trace\<close>

text \<open>The windows with the chunk numbers the loop counter gives them: the counter is
  incremented at the top of every pass, so the numbers are 1, 2, ... in loop order.\<close>

fun number_from :: "int \<Rightarrow> 'a list \<Rightarrow> (int \<times> 'a) list" where
  "number_from m [] = []"
| "number_from m (x # xs) = (m + 1, x) # number_from (m + 1) xs"

definition numbered_windows :: "processor \<Rightarrow> raster \<Rightarrow> (int \<times> window) list" where
  "numbered_windows self src =
     number_from 0 (scan_windows (src_height src) (src_width src) (chunk_size self))"

text \<open>The actions of one window that is not skipped: the read, the write of the chunk
  file when the chunk has rows, the save of the checkpoint.\<close>

definition window_events :: "processor \<Rightarrow> raster \<Rightarrow> int \<times> window \<Rightarrow> event list" where
  "window_events self src nw =
     (case nw of (n, win) \<Rightarrow>
        [Read_window n win] @
        (case process_chunk self src win of
           None \<Rightarrow> []
         | Some rows \<Rightarrow> if rows = [] then [] else [Write_chunk n rows]) @
        [Save_progress n])"

text \<open>The checkpoint on disk after a sequence of actions that started with the
  checkpoint \<open>c\<close>.\<close>

definition checkpoint_after :: "int \<Rightarrow> event list \<Rightarrow> int" where
  "checkpoint_after c evs =
     fold (\<lambda>e c. case e of Save_progress n \<Rightarrow> n | _ \<Rightarrow> c) evs c"

text \<open>The highest chunk number whose output is on disk after a sequence of actions
  that started with the output of the chunks up to \<open>d\<close> on disk: a chunk with rows is
  out once its file is written, a chunk without rows once it is extracted (it has no
  file).\<close>

definition written_upto :: "processor \<Rightarrow> raster \<Rightarrow> int \<Rightarrow> event list \<Rightarrow> int" where
  "written_upto self src d evs =
     fold (\<lambda>e d. case e of
               Read_window n win \<Rightarrow>
                 (case process_chunk self src win of
                    None \<Rightarrow> max d n
                  | Some rows \<Rightarrow> if rows = [] then max d n else d)
             | Write_chunk n rows \<Rightarrow> max d n
             | Save_progress n \<Rightarrow> d) evs d"

text \<open>The chunk files on disk after a sequence of actions.\<close>

definition files_after :: "(int \<times> gz_file) list \<Rightarrow> event list \<Rightarrow> (int \<times> gz_file) list" where
  "files_after files evs =
     fold (\<lambda>e fl. case e of Write_chunk n rows \<Rightarrow> AList.update n (Csv rows) fl | _ \<Rightarrow> fl)
       evs files"

definition saved_chunks :: "event list \<Rightarrow> int list" where
  "saved_chunks evs = concat (map (\<lambda>e. case e of Save_progress n \<Rightarrow> [n] | _ \<Rightarrow> []) evs)"

definition read_chunks :: "event list \<Rightarrow> int list" where
  "read_chunks evs = concat (map (\<lambda>e. case e of Read_window n win \<Rightarrow> [n] | _ \<Rightarrow> []) evs)"

section \<open>A small instance\<close>

text \<open>A raster of 3 rows and 5 columns scanned with chunk size 2 (six windows): the two
  left columns hold code 36, the last cell holds code 1, every other cell is background.
  The coordinate transformations are the identity and every cell lies inside the bounds.\<close>

definition example_pixel :: "int \<Rightarrow> int \<Rightarrow> int" where
  "example_pixel r c = (if c < 2 then 36 else if r = 2 \<and> c = 4 then 1 else 0)"

definition example_raster :: raster where
  "example_raster =
     \<lparr>src_height = 3, src_width = 5,
      src_read = (\<lambda>win. Some (map (\<lambda>r. map (\<lambda>c. example_pixel r c)
                     [col_off win .. col_off win + width win - 1])
                   [row_off win .. row_off win + height win - 1])),
      src_xy = (\<lambda>r c. (- 120 + real_of_int c, 40 - real_of_int r))\<rparr>"

definition example_processor :: processor where
  "example_processor =
     \<lparr>year = 2008, chunk_size = 2, transformer = (\<lambda>p. p), transformer_inverse = (\<lambda>p. p)\<rparr>"

definition example_fs :: fs where
  "example_fs =
     \<lparr>tif = Some (Raster example_raster), final_csv_gz = False, final_h5 = None,
      chunks_dir = False, progress_json = None, chunk_files = [], corrupted = None\<rparr>"

definition example_state :: scan_state where
  "example_state =
     \<lparr>progress = \<lparr>last_chunk = 6, status = ''processing''\<rparr>,
      disk = example_fs\<lparr>chunks_dir := True,
               progress_json := Some (Json_doc \<lparr>last_chunk = 6, status = ''processing''\<rparr>)\<rparr>,
      chunk_num = 0, trace = []\<rparr>"






section \<open>Looking files up\<close>




section \<open>Auxiliary notions for the proofs\<close>

text \<open>The number of bands of size \<open>cs\<close> that cover an extent \<open>n\<close>.\<close>

definition ncell :: "int \<Rightarrow> int \<Rightarrow> nat" where
  "ncell n cs = nat ((n + cs - 1) div cs)"

text \<open>The window the loop body builds at the loop position \<open>(y, x)\<close>.\<close>

definition pos_window :: "processor \<Rightarrow> raster \<Rightarrow> int \<times> int \<Rightarrow> window" where
  "pos_window self src p = (case p of (y, x) \<Rightarrow>
     \<lparr>col_off = x, row_off = y, width = min (chunk_size self) (src_width src - x),
      height = min (chunk_size self) (src_height src - y)\<rparr>)"

text \<open>The loop body as a function of the position.\<close>

abbreviation W where "W self src s \<equiv> (\<lambda>(y, x). window_iter self src s y x)"


text \<open>The index pairs of the true entries of a mask, in row-major order.\<close>

definition mask_idx :: "bool list list \<Rightarrow> (nat \<times> nat) list" where
  "mask_idx m = concat (map (\<lambda>i. map (Pair i) (filter (\<lambda>j. m ! i ! j) [0..<length (m ! i)])) [0..<length m])"

text \<open>The rows of a table that may not exist yet.\<close>

definition table_rows :: "cdl_row list option \<Rightarrow> cdl_row list" where
  "table_rows t = (case t of None \<Rightarrow> [] | Some rows \<Rightarrow> rows)"



section \<open>Checkpoint tracker: lemmas\<close>

lemma disk_save_progress:
  "disk (save_progress c st) = (disk st)\<lparr>progress_json := Some (Json_doc ((progress st)\<lparr>last_chunk := c\<rparr>))\<rparr>"
  by (simp add: save_progress_def save_dump_def save_open_def save_assign_def)

lemma progress_save_progress:
  "progress (save_progress c st) = (progress st)\<lparr>last_chunk := c\<rparr>"
  by (simp add: save_progress_def save_dump_def save_open_def save_assign_def)

lemma load_after_save:
  "load_progress (disk (save_progress c st)) = Inr ((progress st)\<lparr>last_chunk := c\<rparr>)"
  by (simp add: disk_save_progress load_progress_def json_load_def)

lemma loads_after_eq:
  "loads_after cs st = map (\<lambda>c. Inr ((progress st)\<lparr>last_chunk := c\<rparr>)) cs"
  by (induction cs arbitrary: st) (simp_all add: load_after_save progress_save_progress)

lemma save_all_load:
  "load_progress (disk (save_all (c # cs) st)) = Inr ((progress st)\<lparr>last_chunk := last (c # cs)\<rparr>)"
proof (induction cs arbitrary: c st)
  case Nil
  show ?case by (simp add: load_after_save)
next
  case (Cons a cs)
  have "load_progress (disk (save_all (c # a # cs) st)) =
        load_progress (disk (save_all (a # cs) (save_progress c st)))" by simp
  also have "\<dots> = Inr ((progress (save_progress c st))\<lparr>last_chunk := last (a # cs)\<rparr>)"
    by (rule Cons.IH)
  finally show ?case by (simp add: progress_save_progress)
qed

lemma init_loaded: "init d = Inr st \<Longrightarrow> load_progress d = Inr (progress st)"
  by (auto simp: init_def Let_def load_progress_def split: sum.splits option.splits)

section \<open>Tiling: lemmas\<close>

lemma range_list_pos:
  "0 < s \<Longrightarrow> range_list a n s = map (\<lambda>i. a + int i * s) [0..<nat ((n - a + s - 1) div s)]"
proof (induction a n s rule: range_list.induct)
  case (1 a n s)
  show ?case
  proof (cases "a < n")
    case True
    have e: "(n - a + s - 1) div s = (n - (a + s) + s - 1) div s + 1"
      using 1(3) by (metis (full_types) add.commute add_diff_cancel_left add_diff_eq
    div_add_self1 int_one_le_iff_zero_less not_one_le_zero)
    have nn: "0 \<le> (n - (a + s) + s - 1) div s"
      using True 1(3) by (simp add: pos_imp_zdiv_nonneg_iff)
    have "range_list a n s = a # range_list (a + s) n s"
      using True 1(3) by (subst range_list.simps) simp
    also have "\<dots> = a # map (\<lambda>i. a + s + int i * s) [0..<nat ((n - (a + s) + s - 1) div s)]"
      using 1(1)[OF _ 1(3)] True 1(3) by simp
    also have "\<dots> = map (\<lambda>i. a + int i * s) [0..<Suc (nat ((n - (a + s) + s - 1) div s))]"
      by (simp add: upt_rec[of 0] map_Suc_upt[symmetric] algebra_simps del: upt_Suc)
    also have "Suc (nat ((n - (a + s) + s - 1) div s)) = nat ((n - a + s - 1) div s)"
      using e nn by simp
    finally show ?thesis .
  next
    case False
    have "(n - a + s - 1) div s \<le> (s - 1) div s"
      using False 1(3) by (intro zdiv_mono1) simp_all
    moreover have "(s - 1) div s = 0" using 1(3) by simp
    ultimately have "(n - a + s - 1) div s \<le> 0" by simp
    then show ?thesis using False 1(3) by (subst range_list.simps) simp
  qed
qed


lemma range_list_0: "0 < cs \<Longrightarrow> range_list 0 n cs = map (\<lambda>i. int i * cs) [0..<ncell n cs]"
  by (simp add: range_list_pos ncell_def)

lemma concat_map_product:
  "concat (map (\<lambda>y. map (\<lambda>x. g y x) xs) ys) = map (\<lambda>(y, x). g y x) (List.product ys xs)"
  by (induction ys) simp_all

lemma scan_windows_product:
  "scan_windows h w cs =
     map (\<lambda>(y, x). \<lparr>col_off = x, row_off = y, width = min cs (w - x), height = min cs (h - y)\<rparr>)
       (List.product (range_list 0 h cs) (range_list 0 w cs))"
  unfolding scan_windows_def by (rule concat_map_product)

lemma length_scan_windows:
  "0 < cs \<Longrightarrow> length (scan_windows h w cs) = ncell h cs * ncell w cs"
  by (simp add: scan_windows_product range_list_0)

lemma nth_scan_windows:
  assumes "0 < cs" "i < ncell h cs * ncell w cs"
  shows "scan_windows h w cs ! i =
     \<lparr>col_off = int (i mod ncell w cs) * cs, row_off = int (i div ncell w cs) * cs,
      width = min cs (w - int (i mod ncell w cs) * cs),
      height = min cs (h - int (i div ncell w cs) * cs)\<rparr>"
proof -
  have pos: "0 < ncell w cs" using assms(2) by (cases "ncell w cs") simp_all
  have d: "i div ncell w cs < ncell h cs"
    using assms(2) pos by (simp add: less_mult_imp_div_less)
  have m: "i mod ncell w cs < ncell w cs" using pos by simp
  show ?thesis
    using assms d m
    by (simp add: scan_windows_product range_list_0 product_nth)
qed



lemma ceil_div:
  assumes "0 < (b::int)"
  shows "\<lceil>real_of_int a / real_of_int b\<rceil> = (a + b - 1) div b"
proof -
  define q where "q = (a + b - 1) div b"
  have m: "a + b - 1 = q * b + (a + b - 1) mod b" by (simp add: q_def)
  have m0: "0 \<le> (a + b - 1) mod b" and m1: "(a + b - 1) mod b < b"
    using assms by simp_all
  have up: "a \<le> q * b" using m m1 by linarith
  have lo: "(q - 1) * b < a" using m m0 by (simp add: algebra_simps)
  have rb: "0 < real_of_int b" using assms by simp
  have "real_of_int a \<le> real_of_int q * real_of_int b"
    using up by (metis of_int_le_iff of_int_mult)
  then have 1: "real_of_int a / real_of_int b \<le> real_of_int q"
    using rb by (simp add: pos_divide_le_eq)
  have "(real_of_int q - 1) * real_of_int b < real_of_int a"
    using lo by (metis of_int_less_iff of_int_mult of_int_diff of_int_1)
  then have 2: "real_of_int q - 1 < real_of_int a / real_of_int b"
    using rb by (simp add: pos_less_divide_eq)
  have "\<lceil>real_of_int a / real_of_int b\<rceil> = q"
    using 1 2 by (intro ceiling_unique) simp_all
  then show ?thesis by (simp add: q_def)
qed

lemma ncell_int: "0 < cs \<Longrightarrow> 0 \<le> n \<Longrightarrow> int (ncell n cs) = (n + cs - 1) div cs"
  unfolding ncell_def by (simp add: pos_imp_zdiv_nonneg_iff)

lemma band_iff:
  assumes "0 < cs" "0 \<le> r" "r < h"
  shows "(int k * cs \<le> r \<and> r < int k * cs + min cs (h - int k * cs)) \<longleftrightarrow> r div cs = int k"
proof
  assume a: "int k * cs \<le> r \<and> r < int k * cs + min cs (h - int k * cs)"
  then have "r = cs * int k + (r - int k * cs)" "0 \<le> r - int k * cs" "r - int k * cs < cs"
    by (auto simp: algebra_simps)
  then show "r div cs = int k" by (rule int_div_pos_eq)
next
  assume e: "r div cs = int k"
  have m: "r = int k * cs + r mod cs" using e by (metis div_mult_mod_eq)
  have "0 \<le> r mod cs" "r mod cs < cs" using assms(1) by simp_all
  then show "int k * cs \<le> r \<and> r < int k * cs + min cs (h - int k * cs)"
    using m assms(3) by (simp add: min_def)
qed

lemma band_index:
  assumes "0 < cs" "0 \<le> r" "r < h"
  shows "nat (r div cs) < ncell h cs"
proof -
  have "r div cs \<le> (h - 1) div cs" using assms by (intro zdiv_mono1) simp_all
  moreover have "(h + cs - 1) div cs = (h - 1) div cs + 1"
    using assms(1) by (metis add.commute add_diff_eq div_add_self1 less_irrefl)
  moreover have "0 \<le> r div cs" using assms by (simp add: pos_imp_zdiv_nonneg_iff)
  ultimately show ?thesis unfolding ncell_def by linarith
qed

lemma in_window_nth:
  assumes "0 < cs" "i < ncell h cs * ncell w cs" "0 \<le> r" "r < h" "0 \<le> c" "c < w"
  shows "in_window (scan_windows h w cs ! i) r c \<longleftrightarrow>
         r div cs = int (i div ncell w cs) \<and> c div cs = int (i mod ncell w cs)"
proof -
  have "in_window (scan_windows h w cs ! i) r c \<longleftrightarrow>
        (int (i div ncell w cs) * cs \<le> r \<and>
         r < int (i div ncell w cs) * cs + min cs (h - int (i div ncell w cs) * cs)) \<and>
        (int (i mod ncell w cs) * cs \<le> c \<and>
         c < int (i mod ncell w cs) * cs + min cs (w - int (i mod ncell w cs) * cs))"
    by (simp add: nth_scan_windows[OF assms(1,2)] in_window_def)
  then show ?thesis
    by (simp only: band_iff[OF assms(1,3,4)] band_iff[OF assms(1,5,6)])
qed

lemma in_window_inside:
  assumes "0 < cs" "i < ncell h cs * ncell w cs" "in_window (scan_windows h w cs ! i) r c"
  shows "0 \<le> r \<and> r < h \<and> 0 \<le> c \<and> c < w"
proof -
  have "0 \<le> int (i div ncell w cs) * cs" "0 \<le> int (i mod ncell w cs) * cs"
    using assms(1) by simp_all
  then show ?thesis
    using assms(3) by (simp add: nth_scan_windows[OF assms(1,2)] in_window_def min_def split: if_splits) 
qed

lemma tiling_unique:
  assumes "0 < cs" "0 \<le> r" "r < h" "0 \<le> c" "c < w"
  shows "\<exists>!i. i < length (scan_windows h w cs) \<and> in_window (scan_windows h w cs ! i) r c"
proof -
  let ?nc = "ncell w cs"
  let ?i = "nat (r div cs) * ?nc + nat (c div cs)"
  have rb: "nat (r div cs) < ncell h cs" by (rule band_index[OF assms(1,2,3)])
  have cb: "nat (c div cs) < ?nc" by (rule band_index[OF assms(1,4,5)])
  have r0: "0 \<le> r div cs" and c0: "0 \<le> c div cs"
    using assms by (simp_all add: pos_imp_zdiv_nonneg_iff)
  have il: "?i < ncell h cs * ?nc"
  proof -
    have "?i < nat (r div cs) * ?nc + ?nc" using cb by simp
    also have "\<dots> = Suc (nat (r div cs)) * ?nc" by simp
    also have "\<dots> \<le> ncell h cs * ?nc" using rb by (intro mult_le_mono1) simp
    finally show ?thesis .
  qed
  have id: "?i div ?nc = nat (r div cs)" and im: "?i mod ?nc = nat (c div cs)"
    using cb by simp_all
  show ?thesis
  proof (rule ex1I[of _ ?i])
    show "?i < length (scan_windows h w cs) \<and> in_window (scan_windows h w cs ! ?i) r c"
      using il r0 c0 by (simp only: length_scan_windows[OF assms(1)] in_window_nth[OF assms(1) il assms(2-5)] id im) simp
  next
    fix j assume j: "j < length (scan_windows h w cs) \<and> in_window (scan_windows h w cs ! j) r c"
    then have jl: "j < ncell h cs * ?nc" by (simp add: length_scan_windows[OF assms(1)])
    from j have "r div cs = int (j div ?nc) \<and> c div cs = int (j mod ?nc)"
      by (simp add: in_window_nth[OF assms(1) jl assms(2-5)])
    then have "j div ?nc = nat (r div cs)" "j mod ?nc = nat (c div cs)" by simp_all
    then have "j = nat (r div cs) * ?nc + nat (c div cs)"
      by (metis div_mult_mod_eq)
    then show "j = ?i" .
  qed
qed

lemma total_chunks_ncell:
  "0 < cs \<Longrightarrow> 0 \<le> h \<Longrightarrow> 0 \<le> w \<Longrightarrow> nat (total_chunks h w cs) = ncell h cs * ncell w cs"
  unfolding total_chunks_def ncell_def
  by (simp add: nat_mult_distrib pos_imp_zdiv_nonneg_iff)

section \<open>Scan driver: lemmas\<close>

lemma nested_fold_flat:
  "fold (\<lambda>y. fold (f y) xs) ys st = fold (\<lambda>(y, x). f y x) (concat (map (\<lambda>y. map (\<lambda>x. (y, x)) xs) ys)) st"
  by (induction ys arbitrary: st) (simp_all add: fold_map comp_def)

lemma scan_windows_positions:
  "scan_windows (src_height src) (src_width src) (chunk_size self) =
   map (pos_window self src) (loop_positions self src)"
  by (simp add: scan_windows_def loop_positions_def map_concat comp_def pos_window_def)

lemma window_iter_skip:
  "chunk_num st + 1 \<le> s \<Longrightarrow> window_iter self src s y x st = st\<lparr>chunk_num := chunk_num st + 1\<rparr>"
  by (simp add: window_iter_def Let_def)

lemma save_chunk_fields:
  "progress (save_chunk df n st) = progress st"
  "chunk_num (save_chunk df n st) = chunk_num st"
  "trace (save_chunk df n st) = trace st @ (case df of None \<Rightarrow> [] | Some rows \<Rightarrow> if rows = [] then [] else [Write_chunk n rows])"
  "disk (save_chunk df n st) = (case df of None \<Rightarrow> disk st | Some rows \<Rightarrow> if rows = [] then disk st
      else (disk st)\<lparr>chunk_files := AList.update n (Csv rows) (chunk_files (disk st))\<rparr>)"
  by (simp_all add: save_chunk_def split: option.splits)

lemma save_progress_fields:
  "progress (save_progress n st) = (progress st)\<lparr>last_chunk := n\<rparr>"
  "chunk_num (save_progress n st) = chunk_num st"
  "trace (save_progress n st) = trace st @ [Save_progress n]"
  "disk (save_progress n st) = (disk st)\<lparr>progress_json := Some (Json_doc ((progress st)\<lparr>last_chunk := n\<rparr>))\<rparr>"
  by (simp_all add: save_progress_def save_dump_def save_open_def save_assign_def)

lemma window_iter_chunk_num [simp]:
  "chunk_num (window_iter self src s y x st) = chunk_num st + 1"
  by (simp add: window_iter_def Let_def save_progress_fields save_chunk_fields)

lemma window_iter_trace:
  "trace (window_iter self src s y x st) =
     trace st @ (if s < chunk_num st + 1
                 then window_events self src (chunk_num st + 1, pos_window self src (y, x)) else [])"
  by (simp add: window_iter_def Let_def save_progress_fields save_chunk_fields window_events_def
      pos_window_def split: option.splits)

lemma fold_W_chunk_num [simp]:
  "chunk_num (fold (W self src s) ps st) = chunk_num st + int (length ps)"
  by (induction ps arbitrary: st) (simp_all add: split_def)

lemma filter_number_from_skip:
  "m + int (length xs) \<le> s \<Longrightarrow> filter (\<lambda>(n, _). s < n) (number_from m xs) = []"
  by (induction xs arbitrary: m) auto

lemma fold_W_trace:
  "trace (fold (W self src s) ps st) =
     trace st @ concat (map (window_events self src)
       (filter (\<lambda>(n, _). s < n) (number_from (chunk_num st) (map (pos_window self src) ps))))"
  by (induction ps arbitrary: st) (auto simp add: split_def window_iter_trace)

lemma window_iter_core:
  assumes "progress st = progress st'" "disk st = disk st'" "chunk_num st = chunk_num st'"
  shows "progress (window_iter self src s y x st) = progress (window_iter self src s y x st') \<and>
         disk (window_iter self src s y x st) = disk (window_iter self src s y x st') \<and>
         chunk_num (window_iter self src s y x st) = chunk_num (window_iter self src s y x st')"
  using assms
  by (simp add: window_iter_def Let_def save_progress_fields save_chunk_fields split: option.splits)

lemma fold_W_core:
  assumes "progress st = progress st'" "disk st = disk st'" "chunk_num st = chunk_num st'"
  shows "progress (fold (W self src s) ps st) = progress (fold (W self src s) ps st') \<and>
         disk (fold (W self src s) ps st) = disk (fold (W self src s) ps st')"
  using assms
proof (induction ps arbitrary: st st')
  case Nil
  then show ?case by simp
next
  case (Cons p ps)
  obtain y x where p: "p = (y, x)" by (cases p)
  have c: "progress (window_iter self src s y x st) = progress (window_iter self src s y x st')"
    "disk (window_iter self src s y x st) = disk (window_iter self src s y x st')"
    "chunk_num (window_iter self src s y x st) = chunk_num (window_iter self src s y x st')"
    using window_iter_core[OF Cons.prems, of self src s y x] by blast+
  show ?case
    unfolding p using Cons.IH[OF c] by simp
qed

lemma fold_W_skip:
  "chunk_num st + int (length ps) \<le> s \<Longrightarrow>
   fold (W self src s) ps st = st\<lparr>chunk_num := chunk_num st + int (length ps)\<rparr>"
proof (induction ps arbitrary: st)
  case Nil
  then show ?case by simp
next
  case (Cons p ps)
  obtain y x where p: "p = (y, x)" by (cases p)
  have a: "window_iter self src s y x st = st\<lparr>chunk_num := chunk_num st + 1\<rparr>"
    using Cons.prems by (intro window_iter_skip) simp
  show ?case using Cons.prems Cons.IH[of "st\<lparr>chunk_num := chunk_num st + 1\<rparr>"] by (simp add: p a)
qed

lemma window_iter_indep:
  "s \<le> chunk_num st \<Longrightarrow> s' \<le> chunk_num st \<Longrightarrow>
   window_iter self src s y x st = window_iter self src s' y x st"
  by (simp add: window_iter_def Let_def)

lemma fold_W_indep:
  "s \<le> chunk_num st \<Longrightarrow> s' \<le> chunk_num st \<Longrightarrow>
   fold (W self src s) ps st = fold (W self src s') ps st"
proof (induction ps arbitrary: st)
  case Nil
  then show ?case by simp
next
  case (Cons p ps)
  obtain y x where p: "p = (y, x)" by (cases p)
  have "fold (W self src s) ps (window_iter self src s y x st) =
        fold (W self src s') ps (window_iter self src s y x st)"
    using Cons.prems by (intro Cons.IH) simp_all
  then show ?case using window_iter_indep[OF Cons.prems, of self src y x] by (simp add: p)
qed

lemma window_iter_frame:
  "tif (disk (window_iter self src s y x st)) = tif (disk st) \<and>
   final_csv_gz (disk (window_iter self src s y x st)) = final_csv_gz (disk st) \<and>
   final_h5 (disk (window_iter self src s y x st)) = final_h5 (disk st) \<and>
   chunks_dir (disk (window_iter self src s y x st)) = chunks_dir (disk st) \<and>
   corrupted (disk (window_iter self src s y x st)) = corrupted (disk st) \<and>
   status (progress (window_iter self src s y x st)) = status (progress st)"
  by (simp add: window_iter_def Let_def save_progress_fields save_chunk_fields split: option.splits)

lemma window_iter_inv:
  "load_progress (disk st) = Inr (progress st) \<Longrightarrow>
   load_progress (disk (window_iter self src s y x st)) = Inr (progress (window_iter self src s y x st))"
  by (simp add: window_iter_def Let_def save_progress_fields save_chunk_fields load_progress_def
      json_load_def split: option.splits)

lemma fold_W_frame:
  "tif (disk (fold (W self src s) ps st)) = tif (disk st) \<and>
   final_csv_gz (disk (fold (W self src s) ps st)) = final_csv_gz (disk st) \<and>
   final_h5 (disk (fold (W self src s) ps st)) = final_h5 (disk st) \<and>
   chunks_dir (disk (fold (W self src s) ps st)) = chunks_dir (disk st) \<and>
   corrupted (disk (fold (W self src s) ps st)) = corrupted (disk st) \<and>
   status (progress (fold (W self src s) ps st)) = status (progress st)"
proof (induction ps arbitrary: st)
  case Nil
  then show ?case by simp
next
  case (Cons p ps)
  obtain y x where p: "p = (y, x)" by (cases p)
  show ?case using Cons.IH[of "window_iter self src s y x st"] window_iter_frame[of self src s y x st]
    by (simp add: p)
qed

lemma fold_W_inv:
  "load_progress (disk st) = Inr (progress st) \<Longrightarrow>
   load_progress (disk (fold (W self src s) ps st)) = Inr (progress (fold (W self src s) ps st))"
proof (induction ps arbitrary: st)
  case Nil
  then show ?case by simp
next
  case (Cons p ps)
  obtain y x where p: "p = (y, x)" by (cases p)
  show ?case using Cons.IH[OF window_iter_inv[OF Cons.prems]] by (simp add: p)
qed

lemma window_iter_last_chunk:
  "last_chunk (progress (window_iter self src s y x st)) =
     (if s < chunk_num st + 1 then chunk_num st + 1 else last_chunk (progress st))"
  by (simp add: window_iter_def Let_def save_progress_fields save_chunk_fields)

lemma fold_W_last_chunk:
  "last_chunk (progress st) \<le> max s (chunk_num st) \<Longrightarrow>
   last_chunk (progress (fold (W self src s) ps st)) =
     (if ps \<noteq> [] \<and> s < chunk_num st + int (length ps) then chunk_num st + int (length ps)
      else last_chunk (progress st))"
proof (induction ps arbitrary: st)
  case Nil
  then show ?case by simp
next
  case (Cons p ps)
  obtain y x where p: "p = (y, x)" by (cases p)
  let ?st = "window_iter self src s y x st"
  have pre: "last_chunk (progress ?st) \<le> max s (chunk_num ?st)"
    using Cons.prems by (simp add: window_iter_last_chunk max_def split: if_splits)
  have "last_chunk (progress (fold (W self src s) (p # ps) st)) =
        last_chunk (progress (fold (W self src s) ps ?st))" by (simp add: p)
  also have "\<dots> = (if ps \<noteq> [] \<and> s < chunk_num ?st + int (length ps)
                     then chunk_num ?st + int (length ps) else last_chunk (progress ?st))"
    by (rule Cons.IH[OF pre])
  also have "\<dots> = (if p # ps \<noteq> [] \<and> s < chunk_num st + int (length (p # ps))
                     then chunk_num st + int (length (p # ps)) else last_chunk (progress st))"
    by (cases ps) (simp_all add: window_iter_last_chunk)
  finally show ?case .
qed

lemma init_ok:
  assumes "progress_json d \<noteq> Some Incomplete"
  shows "\<exists>p. load_progress d = Inr p \<and>
             init d = Inr \<lparr>progress = p, disk = d\<lparr>chunks_dir := True\<rparr>, chunk_num = 0, trace = []\<rparr>"
proof (cases "progress_json d")
  case None
  then show ?thesis by (simp add: init_def load_progress_def)
next
  case (Some f)
  then obtain p where "f = Json_doc p" using assms by (cases f) simp_all
  then show ?thesis using Some by (simp add: init_def load_progress_def json_load_def)
qed

lemma process_flat:
  assumes "\<not> final_csv_gz (disk st)" "tif (disk st) = Some (Raster src)" "chunk_size self \<noteq> 0"
  shows "process self st =
         Inr (fold (W self src (last_chunk (progress st))) (loop_positions self src) (st\<lparr>chunk_num := 0\<rparr>))"
  using assms by (simp add: process_def Let_def nested_fold_flat loop_positions_def)

lemma process_killed_flat:
  assumes "\<not> final_csv_gz (disk st)" "tif (disk st) = Some (Raster src)" "chunk_size self \<noteq> 0"
  shows "process_killed k self st =
         Inr (fold (W self src (last_chunk (progress st))) (take k (loop_positions self src)) (st\<lparr>chunk_num := 0\<rparr>))"
  using assms by (simp add: process_killed_def Let_def)

lemma numbered_windows_positions:
  "numbered_windows self src = number_from 0 (map (pos_window self src) (loop_positions self src))"
  by (simp add: numbered_windows_def scan_windows_positions)

lemma resume_core:
  fixes self src s0 k ps st0
  defines "st1 \<equiv> fold (W self src s0) (take k ps) st0"
  defines "st1' \<equiv> \<lparr>progress = progress st1, disk = disk st1, chunk_num = 0, trace = []\<rparr>"
  defines "st2 \<equiv> fold (W self src (last_chunk (progress st1))) ps st1'"
  defines "st3 \<equiv> fold (W self src s0) ps st0"
  assumes c0: "chunk_num st0 = 0" and s0: "last_chunk (progress st0) = s0" and t0: "trace st0 = []"
  shows "disk st2 = disk st3 \<and> progress st2 = progress st3 \<and> trace st3 = trace st1 @ trace st2"
proof -
  let ?k = "int (length (take k ps))"
  have split3: "st3 = fold (W self src s0) (drop k ps) st1"
    unfolding st3_def st1_def by (metis append_take_drop_id fold_append comp_apply)
  have s1: "last_chunk (progress st1) =
        (if take k ps \<noteq> [] \<and> s0 < ?k then ?k else s0)"
    unfolding st1_def using fold_W_last_chunk[of st0 s0 self src "take k ps"] c0 s0 by simp
  have cn1: "chunk_num st1 = ?k" unfolding st1_def using c0 by simp
  show ?thesis
  proof (cases "take k ps \<noteq> [] \<and> s0 < ?k")
    case False
    then have sk: "st1 = st0\<lparr>chunk_num := ?k\<rparr>"
    proof (cases "take k ps = []")
      case True
      have a: "st1 = st0" unfolding st1_def by (simp only: True fold.simps id_apply)
      have b: "?k = 0" by (simp only: True list.size of_nat_0)
      have "st0\<lparr>chunk_num := 0\<rparr> = st0" using c0 by simp
      then show ?thesis unfolding a b by simp
    next
      case False
      with \<open>\<not> (take k ps \<noteq> [] \<and> s0 < ?k)\<close> have "?k \<le> s0" by simp
      then show ?thesis unfolding st1_def using fold_W_skip[of st0 "take k ps" s0 self src] c0 by simp
    qed
    have e: "st1' = st0" unfolding st1'_def using sk c0 t0 by simp
    have "last_chunk (progress st1) = s0" using s1 False by simp
    then have 23: "st2 = st3" unfolding st2_def st3_def e by simp
    have "trace st1 = []" using sk t0 by simp
    then show ?thesis using 23 by simp
  next
    case True
    then have s1k: "last_chunk (progress st1) = ?k" using s1 by simp
    let ?m = "st1'\<lparr>chunk_num := ?k\<rparr>"
    have "st2 = fold (W self src ?k) (drop k ps) (fold (W self src ?k) (take k ps) st1')"
      unfolding st2_def s1k by (metis append_take_drop_id fold_append comp_apply)
    also have "fold (W self src ?k) (take k ps) st1' = ?m"
      using fold_W_skip[of st1' "take k ps" ?k self src] by (simp add: st1'_def)
    also have "fold (W self src ?k) (drop k ps) ?m = fold (W self src s0) (drop k ps) ?m"
      using True by (intro fold_W_indep) simp_all
    finally have 2: "st2 = fold (W self src s0) (drop k ps) ?m" .
    have core: "progress ?m = progress st1" "disk ?m = disk st1" "chunk_num ?m = chunk_num st1"
      by (simp_all add: st1'_def cn1)
    have dp: "progress st2 = progress st3 \<and> disk st2 = disk st3"
      unfolding 2 split3 by (rule fold_W_core[OF core])
    have "trace st3 = trace st1 @ trace st2"
      unfolding 2 split3 by (simp add: fold_W_trace cn1 st1'_def)
    then show ?thesis using dp by simp
  qed
qed
lemma read_chunks_append: "read_chunks (a @ b) = read_chunks a @ read_chunks b"
  by (simp add: read_chunks_def)

lemma saved_chunks_append: "saved_chunks (a @ b) = saved_chunks a @ saved_chunks b"
  by (simp add: saved_chunks_def)

lemma read_chunks_window_events: "read_chunks (window_events self src nw) = [fst nw]"
  by (cases nw) (auto simp add: read_chunks_def window_events_def split: option.splits)

lemma saved_chunks_window_events: "saved_chunks (window_events self src nw) = [fst nw]"
  by (cases nw) (auto simp add: saved_chunks_def window_events_def split: option.splits)

lemma read_chunks_concat:
  "read_chunks (concat (map (window_events self src) nws)) = map fst nws"
  by (induction nws) (simp_all add: read_chunks_append read_chunks_window_events, simp add: read_chunks_def)

lemma saved_chunks_concat:
  "saved_chunks (concat (map (window_events self src) nws)) = map fst nws"
  by (induction nws) (simp_all add: saved_chunks_append saved_chunks_window_events, simp add: saved_chunks_def)

lemma map_fst_filter: "map fst (filter (\<lambda>(n, w). P n) xs) = filter P (map fst xs)"
  by (induction xs) auto


section \<open>Traces: lemmas\<close>

lemma map_fst_number_from:
  "map fst (number_from m xs) = map (\<lambda>i. m + 1 + int i) [0..<length xs]"
proof (induction xs arbitrary: m)
  case Nil
  show ?case by simp
next
  case (Cons x xs)
  have "map fst (number_from m (x # xs)) = (m + 1) # map (\<lambda>i. m + 1 + 1 + int i) [0..<length xs]"
    using Cons.IH[of "m + 1"] by simp
  also have "\<dots> = map (\<lambda>i. m + 1 + int i) [0..<length (x # xs)]"
    by (simp add: upt_rec[of 0] map_Suc_upt[symmetric] algebra_simps del: upt_Suc)
  finally show ?case .
qed

lemma sorted_numbers: "sorted_wrt (<) (map fst (number_from m xs))"
  by (simp add: map_fst_number_from sorted_wrt_map sorted_wrt_upt[unfolded sorted_wrt_iff_nth_less] sorted_wrt_iff_nth_less)

lemma sorted_saves:
  "sorted_wrt (<) (c # filter (\<lambda>n. c < n) (map fst (number_from m xs)))"
  using sorted_numbers[of m xs] by (simp add: sorted_wrt_filter)

lemma length_number_from [simp]: "length (number_from m xs) = length xs"
  by (induction xs arbitrary: m) simp_all

lemma length_numbered_windows:
  "length (numbered_windows self src) = length (loop_positions self src)"
  by (simp add: numbered_windows_positions)

lemma checkpoint_after_append:
  "checkpoint_after c (a @ b) = checkpoint_after (checkpoint_after c a) b"
  by (simp add: checkpoint_after_def)

lemma written_upto_append:
  "written_upto self src d (a @ b) = written_upto self src (written_upto self src d a) b"
  by (simp add: written_upto_def)

lemma files_after_append:
  "files_after fl (a @ b) = files_after (files_after fl a) b"
  by (simp add: files_after_def)

lemma checkpoint_after_window_events:
  "checkpoint_after c (window_events self src nw) = fst nw"
  by (cases nw) (auto simp add: checkpoint_after_def window_events_def split: option.splits)

lemma written_upto_window_events:
  "written_upto self src d (window_events self src nw) = max d (fst nw)"
  by (cases nw) (auto simp add: written_upto_def window_events_def split: option.splits)

lemma written_upto_mono: "d \<le> written_upto self src d evs"
proof (induction evs arbitrary: d)
  case Nil
  show ?case by (simp add: written_upto_def)
next
  case (Cons e evs)
  have "written_upto self src d (e # evs) = written_upto self src (written_upto self src d [e]) evs"
    using written_upto_append[of self src d "[e]" evs] by simp
  moreover have "d \<le> written_upto self src d [e]"
    by (cases e) (auto simp add: written_upto_def split: option.splits)
  ultimately show ?case using Cons.IH[of "written_upto self src d [e]"] by simp
qed

lemma block_prefix:
  assumes "c \<le> d"
  shows "checkpoint_after c (take i (window_events self src nw)) \<le>
         written_upto self src d (take i (window_events self src nw))"
proof -
  obtain n win where nw: "nw = (n, win)" by (cases nw)
  consider "i = 0" | "i = 1" | "i = 2" | "3 \<le> i" by linarith
  then show ?thesis
  proof cases
    case 1
    then show ?thesis using assms by (simp add: checkpoint_after_def written_upto_def)
  next
    case 2
    then show ?thesis using assms
      by (auto simp add: nw checkpoint_after_def written_upto_def window_events_def split: option.splits)
  next
    case 3
    then have t: "take i (window_events self src nw) = take (Suc (Suc 0)) (window_events self src nw)"
      by (simp add: numeral_2_eq_2)
    show ?thesis unfolding t using assms
      by (auto simp add: nw checkpoint_after_def written_upto_def window_events_def split: option.splits)
  next
    case 4
    have "length (window_events self src nw) \<le> 3"
      by (auto simp add: nw window_events_def split: option.splits)
    then have t: "take i (window_events self src nw) = window_events self src nw"
      using 4 by simp
    show ?thesis unfolding t using assms
      by (simp add: checkpoint_after_window_events written_upto_window_events)
  qed
qed

lemma blocks_prefix:
  "c \<le> d \<Longrightarrow>
   checkpoint_after c (take i (concat (map (window_events self src) nws))) \<le>
   written_upto self src d (take i (concat (map (window_events self src) nws)))"
proof (induction nws arbitrary: c d i)
  case Nil
  then show ?case by (simp add: checkpoint_after_def written_upto_def)
next
  case (Cons nw nws)
  let ?b = "window_events self src nw"
  let ?r = "concat (map (window_events self src) nws)"
  show ?case
  proof (cases "i \<le> length ?b")
    case True
    then show ?thesis using block_prefix[OF Cons.prems, of i self src nw] by simp
  next
    case False
    then have t: "take i (concat (map (window_events self src) (nw # nws))) =
                  ?b @ take (i - length ?b) ?r" by simp
    have "fst nw \<le> max d (fst nw)" by simp
    from Cons.IH[OF this, of "i - length ?b"] show ?thesis
      unfolding t
      by (simp only: checkpoint_after_append written_upto_append
          checkpoint_after_window_events written_upto_window_events)
  qed
qed

lemma window_iter_files:
  "chunk_files (disk (window_iter self src s y x st)) =
     files_after (chunk_files (disk st))
       (if s < chunk_num st + 1
        then window_events self src (chunk_num st + 1, pos_window self src (y, x)) else [])"
  by (auto simp add: window_iter_def Let_def save_progress_fields save_chunk_fields window_events_def
      pos_window_def files_after_def split: option.splits)

lemma fold_W_files:
  "chunk_files (disk (fold (W self src s) ps st)) =
     files_after (chunk_files (disk st)) (concat (map (window_events self src)
       (filter (\<lambda>(n, _). s < n) (number_from (chunk_num st) (map (pos_window self src) ps)))))"
proof (induction ps arbitrary: st)
  case Nil
  show ?case by (simp add: files_after_def)
next
  case (Cons p ps)
  obtain y x where p: "p = (y, x)" by (cases p)
  show ?case
    using Cons.IH[of "window_iter self src s y x st"]
    by (simp add: p window_iter_files files_after_append) (simp add: files_after_def)
qed

lemma window_iter_progress:
  "progress (window_iter self src s y x st) =
     (progress st)\<lparr>last_chunk := checkpoint_after (last_chunk (progress st))
       (if s < chunk_num st + 1
        then window_events self src (chunk_num st + 1, pos_window self src (y, x)) else [])\<rparr>"
  by (simp add: window_iter_def Let_def save_progress_fields save_chunk_fields
      checkpoint_after_window_events) (simp add: checkpoint_after_def)

lemma fold_W_progress:
  "progress (fold (W self src s) ps st) =
     (progress st)\<lparr>last_chunk := checkpoint_after (last_chunk (progress st))
       (concat (map (window_events self src)
         (filter (\<lambda>(n, _). s < n) (number_from (chunk_num st) (map (pos_window self src) ps)))))\<rparr>"
proof (induction ps arbitrary: st)
  case Nil
  show ?case by (simp add: checkpoint_after_def)
next
  case (Cons p ps)
  obtain y x where p: "p = (y, x)" by (cases p)
  show ?case
    using Cons.IH[of "window_iter self src s y x st"]
    by (simp add: p window_iter_progress checkpoint_after_append) (simp add: checkpoint_after_def)
qed


section \<open>Chunk extractor: lemmas\<close>

lemma zip_nth_map:
  "length xs = length ys \<Longrightarrow> zip xs ys = map (\<lambda>j. (xs ! j, ys ! j)) [0..<length xs]"
  by (intro nth_equalityI) simp_all

lemma enumerate_nth_map: "enumerate 0 xs = map (\<lambda>j. (j, xs ! j)) [0..<length xs]"
  by (intro nth_equalityI) (simp_all add: nth_enumerate_eq)

lemma upto_as_upt: "[a .. a + int n - 1] = map (\<lambda>i. a + int i) [0..<n]"
proof (induction n)
  case 0
  show ?case by simp
next
  case (Suc n)
  have "[a .. a + int (Suc n) - 1] = [a .. a + int n - 1] @ [a + int n]"
    using upto_rec2[of a "a + int n"] by simp
  then show ?case using Suc by simp
qed

lemma upto_len: "[a .. a + k - 1] = map (\<lambda>i. a + int i) [0..<nat k]"
proof (cases "0 \<le> k")
  case True
  then show ?thesis using upto_as_upt[of a "nat k"] by simp
next
  case False
  then show ?thesis by simp
qed

lemma nonzero_idx: "nonzero m = map (\<lambda>(i, j). (int i, int j)) (mask_idx m)"
  by (simp add: nonzero_def mask_idx_def enumerate_nth_map map_concat comp_def filter_map)

lemma mask_select_idx:
  assumes "length a = length m" "\<forall>i<length m. length (a ! i) = length (m ! i)"
  shows "mask_select a m = map (\<lambda>(i, j). a ! i ! j) (mask_idx m)"
proof -
  have "mask_select a m =
        concat (map (\<lambda>i. map fst (filter snd (zip (a ! i) (m ! i)))) [0..<length m])"
    using assms(1) by (simp add: mask_select_def zip_nth_map comp_def)
  also have "\<dots> = concat (map (\<lambda>i. map (\<lambda>j. a ! i ! j) (filter (\<lambda>j. m ! i ! j) [0..<length (m ! i)])) [0..<length m])"
  proof (rule arg_cong[where f = concat], rule map_cong[OF refl])
    fix i assume "i \<in> set [0..<length m]"
    then have l: "length (a ! i) = length (m ! i)" using assms(2) by simp
    show "map fst (filter snd (zip (a ! i) (m ! i))) =
          map ((!) (a ! i)) (filter ((!) (m ! i)) [0..<length (m ! i)])"
      by (simp add: zip_nth_map[OF l] filter_map comp_def l)
  qed
  also have "\<dots> = map (\<lambda>(i, j). a ! i ! j) (mask_idx m)"
    by (simp add: mask_idx_def map_concat comp_def)
  finally show ?thesis .
qed

lemma np_any_idx: "np_any m \<longleftrightarrow> mask_idx m \<noteq> []"
proof -
  have "np_any m \<longleftrightarrow> (\<exists>row\<in>set m. \<exists>b\<in>set row. b)"
    by (simp add: np_any_def list_ex_iff)
  also have "\<dots> \<longleftrightarrow> (\<exists>i<length m. \<exists>j<length (m ! i). m ! i ! j)"
  proof
    assume "\<exists>row\<in>set m. \<exists>b\<in>set row. b"
    then obtain row where r: "row \<in> set m" "True \<in> set row" by auto
    then obtain i where i: "i < length m" "m ! i = row" by (auto simp: in_set_conv_nth)
    from r(2) obtain j where j: "j < length row" "row ! j = True" by (auto simp: in_set_conv_nth)
    show "\<exists>i<length m. \<exists>j<length (m ! i). m ! i ! j" using i j by auto
  next
    assume "\<exists>i<length m. \<exists>j<length (m ! i). m ! i ! j"
    then obtain i j where ij: "i < length m" "j < length (m ! i)" "m ! i ! j" by blast
    have a: "m ! i \<in> set m" using ij(1) by simp
    have b: "m ! i ! j \<in> set (m ! i)" using ij(2) by (rule nth_mem)
    show "\<exists>row\<in>set m. \<exists>b\<in>set row. b" using a b ij(3) by blast
  qed
  also have "\<dots> \<longleftrightarrow> mask_idx m \<noteq> []"
    by (simp add: mask_idx_def filter_empty_conv Bex_def)
  finally show ?thesis .
qed

lemma reshape_concat:
  assumes "\<forall>r\<in>set rs. length (f r) = n"
  shows "map (\<lambda>i. take n (drop (i * n) (concat (map f rs)))) [0..<length rs] = map f rs"
  using assms
proof (induction rs)
  case Nil
  show ?case by simp
next
  case (Cons r rs)
  have l: "length (f r) = n" using Cons.prems by simp
  have "map (\<lambda>i. take n (drop (i * n) (concat (map f (r # rs))))) [0..<length (r # rs)] =
        take n (f r @ concat (map f rs)) #
        map (\<lambda>i. take n (drop (Suc i * n) (f r @ concat (map f rs)))) [0..<length rs]"
    by (simp add: upt_rec[of 0] map_Suc_upt[symmetric] del: upt_Suc)
  also have "take n (f r @ concat (map f rs)) = f r" using l by simp
  also have "map (\<lambda>i. take n (drop (Suc i * n) (f r @ concat (map f rs)))) [0..<length rs] =
             map (\<lambda>i. take n (drop (i * n) (concat (map f rs)))) [0..<length rs]"
    using l by (simp add: add.commute)
  also have "\<dots> = map f rs" using Cons by simp
  finally show ?case by simp
qed

lemma meshgrid_ravel_idx:
  "meshgrid_ravel w =
     map (\<lambda>(i, j). (row_off w + int i, col_off w + int j))
       (concat (map (\<lambda>i. map (Pair i) [0..<nat (width w)]) [0..<nat (height w)]))"
  by (simp add: meshgrid_ravel_def upto_len map_concat comp_def)

lemma meshgrid_ravel_product:
  "meshgrid_ravel w = List.product [row_off w .. row_off w + height w - 1] [col_off w .. col_off w + width w - 1]"
  by (simp add: meshgrid_ravel_def List.product_concat_map)

lemma distinct_meshgrid_ravel: "distinct (meshgrid_ravel w)"
  by (simp add: meshgrid_ravel_product distinct_product)

lemma set_meshgrid_ravel: "set (meshgrid_ravel w) = {(r, c). in_window w r c}"
  by (auto simp add: meshgrid_ravel_product in_window_def)

lemma filter_concat_map_Pair:
  "filter (\<lambda>(i, j). Q i j) (concat (map (\<lambda>i. map (Pair i) (js i)) is)) =
   concat (map (\<lambda>i. map (Pair i) (filter (Q i) (js i))) is)"
  by (induction "is") (simp_all add: filter_map comp_def)

lemma process_chunk_eq:
  fixes self :: processor and src :: raster and w :: window and data :: "int list list"
  assumes rd: "src_read src w = Some data"
    and len: "length data = nat (height w)"
    and wid: "\<forall>row\<in>set data. length row = nat (width w)"
  defines "val \<equiv> (\<lambda>r c. data ! nat (r - row_off w) ! nat (c - col_off w))"
  defines "cells \<equiv> filter (\<lambda>(r, c). 0 < val r c \<and> is_in_california self (src_xy src r c))
                     (meshgrid_ravel w)"
  shows "process_chunk self src w =
           (if cells = [] then None
            else Some (map (\<lambda>(r, c). make_row self src (val r c) (r, c)) cells))"
proof -
  let ?H = "nat (height w)" and ?W = "nat (width w)"
  let ?r0 = "row_off w" and ?c0 = "col_off w"
  let ?P = "\<lambda>r c. is_in_california self (src_xy src r c)"
  let ?Q = "\<lambda>i j. 0 < data ! i ! j \<and> ?P (?r0 + int i) (?c0 + int j)"
  let ?idx = "concat (map (\<lambda>i. map (Pair i) (filter (?Q i) [0..<?W])) [0..<?H])"
  let ?rows = "map (\<lambda>i. ?r0 + int i) [0..<?H]" and ?cols = "map (\<lambda>j. ?c0 + int j) [0..<?W]"
  let ?flat = "map (\<lambda>(r, c). ?P r c) (meshgrid_ravel w)"
  let ?cm = "map (\<lambda>r. map (\<lambda>c. ?P r c) ?cols) ?rows"
  have rowlen: "\<And>i. i < ?H \<Longrightarrow> length (data ! i) = ?W"
    using wid len by simp
  have flat: "?flat = concat (map (\<lambda>r. map (\<lambda>c. ?P r c) ?cols) ?rows)"
    by (simp add: meshgrid_ravel_def upto_len map_concat comp_def)
  have sh: "shape data = (?H, if ?H = 0 then 0 else ?W)"
  proof (cases data)
    case Nil
    then show ?thesis using len by (simp add: shape_def)
  next
    case (Cons r rs)
    then have "length r = ?W" using wid by simp
    then show ?thesis using len Cons by (simp add: shape_def) 
  qed
  have resh: "reshape (shape data) ?flat = Some ?cm"
  proof (cases "?H = 0")
    case True
    then show ?thesis by (simp add: sh reshape_def flat)
  next
    case False
    have l: "length ?flat = ?H * ?W"
      by (simp add: flat length_concat comp_def sum_list_triv)
    have "map (\<lambda>i. take ?W (drop (i * ?W) (concat (map (\<lambda>r. map (\<lambda>c. ?P r c) ?cols) ?rows)))) [0..<length ?rows] = ?cm"
      by (rule reshape_concat) simp
    then have "map (\<lambda>i. take ?W (drop (i * ?W) ?flat)) [0..<?H] = ?cm"
      unfolding flat by simp
    then show ?thesis using False l by (simp add: sh reshape_def)
  qed
  define vm where "vm = map (\<lambda>(row, mrow). map (\<lambda>(v, m). 0 < v \<and> m) (zip row mrow)) (zip data ?cm)"
  have vlen: "length vm = ?H" by (simp add: vm_def len)
  have vrow: "\<And>i. i < ?H \<Longrightarrow> vm ! i = map (\<lambda>j. ?Q i j) [0..<?W]"
  proof -
    fix i assume i: "i < ?H"
    have "vm ! i = map (\<lambda>(v, m). 0 < v \<and> m) (zip (data ! i) (map (\<lambda>c. ?P (?r0 + int i) c) ?cols))"
      using i by (simp add: vm_def len)
    also have "\<dots> = map (\<lambda>j. ?Q i j) [0..<?W]"
      using rowlen[OF i] by (intro nth_equalityI) simp_all
    finally show "vm ! i = map (\<lambda>j. ?Q i j) [0..<?W]" .
  qed
  have idx: "mask_idx vm = ?idx"
    unfolding mask_idx_def vlen
  proof (rule arg_cong[where f = concat], rule map_cong[OF refl])
    fix i assume "i \<in> set [0..<?H]"
    then have i: "i < ?H" by simp
    have "filter ((!) (vm ! i)) [0..<length (vm ! i)] = filter (?Q i) [0..<?W]"
      unfolding vrow[OF i] by (intro filter_cong) simp_all
    then show "map (Pair i) (filter ((!) (vm ! i)) [0..<length (vm ! i)]) =
          map (Pair i) (filter (?Q i) [0..<?W])" by simp
  qed
  have ms: "mask_select data vm = map (\<lambda>(i, j). data ! i ! j) ?idx"
    unfolding idx[symmetric]
    by (rule mask_select_idx) (simp_all add: vlen len vrow rowlen)
  have nz: "nonzero vm = map (\<lambda>(i, j). (int i, int j)) ?idx"
    by (simp only: nonzero_idx idx)
  have zz: "zip (mask_select data vm) (nonzero vm) =
            map (\<lambda>(i, j). (data ! i ! j, (int i, int j))) ?idx"
    unfolding ms nz by (simp add: zip_map_map zip_same_conv_map split_def)
  have cells_idx: "cells = map (\<lambda>(i, j). (?r0 + int i, ?c0 + int j)) ?idx"
  proof -
    have "cells = map (\<lambda>(i, j). (?r0 + int i, ?c0 + int j))
             (filter (\<lambda>(i, j). ?Q i j) (concat (map (\<lambda>i. map (Pair i) [0..<?W]) [0..<?H])))"
      unfolding cells_def meshgrid_ravel_idx
      by (simp add: filter_map comp_def split_def val_def)
    then show ?thesis by (simp only: filter_concat_map_Pair)
  qed
  have pc: "process_chunk self src w =
            (if \<not> np_any vm then None
             else Some (map (\<lambda>(code, (i, j)). make_row self src code (i + ?r0, j + ?c0))
                     (zip (mask_select data vm) (nonzero vm))))"
    unfolding process_chunk_def vm_def by (simp add: rd resh Let_def)
  show ?thesis
  proof (cases "?idx = []")
    case True
    then show ?thesis unfolding pc by (simp add: np_any_idx idx cells_idx)
  next
    case False
    then have ne: "cells \<noteq> []" by (simp add: cells_idx)
    have "map (\<lambda>(code, (i, j)). make_row self src code (i + ?r0, j + ?c0))
                     (zip (mask_select data vm) (nonzero vm)) =
          map (\<lambda>(r, c). make_row self src (val r c) (r, c)) cells"
      unfolding zz cells_idx by (simp add: comp_def split_def val_def add.commute)
    then show ?thesis unfolding pc using False ne by (simp add: np_any_idx idx)
  qed
qed

section \<open>Merge: lemmas\<close>







lemma validate_None [simp]: "\<not> validate_chunk_file None"
  by (simp add: validate_chunk_file_def)

lemma read_csv_None [simp]: "read_csv None = None"
  by (simp add: read_csv_def)




lemma store_append_None: "(store_append t df = None) = (t = None \<and> df = [])"
  by (simp add: store_append_def)


lemma fold_store_None:
  "(fold (\<lambda>df t. store_append t df) dfs t = None) = (t = None \<and> concat dfs = [])"
  by (induction dfs arbitrary: t) (auto simp add: store_append_None)





lemma table_rows_None: "(t = None) \<Longrightarrow> table_rows t = []"
  by (simp add: table_rows_def)




section \<open>The claims\<close>

subsection \<open>Checkpoint tracker\<close>

lemma loaded_values_eq: "loaded_values cs st = cs"
  by (simp add: loaded_values_def loads_after_eq) (induction cs, simp_all)

text \<open>
  C10. A save changes only the last-chunk field of the persisted record. After the
  constructor has loaded (or defaulted) the checkpoint, any positive number of saves
  leaves on disk the loaded record with \<open>last_chunk\<close> replaced by the last number
  saved; the status a later load returns is the one that was loaded or defaulted.
\<close>

theorem save_keeps_status:
  assumes "init d = Inr st"
  shows "load_progress d = Inr (progress st) \<and>
         load_progress (disk (save_all (c # cs) st)) = Inr ((progress st)\<lparr>last_chunk := last (c # cs)\<rparr>) \<and>
         (\<exists>p. load_progress (disk (save_all (c # cs) st)) = Inr p \<and> status p = status (progress st))"
  using init_loaded[OF assms] save_all_load[of c cs st] by simp

theorem save_keeps_status_witness:
  "load_progress example_fs = Inr \<lparr>last_chunk = 0, status = ''processing''\<rparr> \<and>
   load_progress (disk (save_all [3, 4]
      \<lparr>progress = \<lparr>last_chunk = 0, status = ''processing''\<rparr>,
       disk = example_fs\<lparr>chunks_dir := True\<rparr>, chunk_num = 0, trace = []\<rparr>)) =
     Inr \<lparr>last_chunk = 4, status = ''processing''\<rparr>"
proof -
  have i: "init example_fs = Inr \<lparr>progress = \<lparr>last_chunk = 0, status = ''processing''\<rparr>,
       disk = example_fs\<lparr>chunks_dir := True\<rparr>, chunk_num = 0, trace = []\<rparr>"
    by (simp add: init_def load_progress_def example_fs_def)
  show ?thesis using save_keeps_status[OF i, of 3 "[4]"] by simp
qed

text \<open>
  C8, as amended. A save overwrites the stored number without comparing it with the old
  one: after each save, a load returns exactly the number just saved. The loaded values
  therefore never decrease precisely when the numbers saved do not decrease (starting
  from the value held before the first save).
\<close>

theorem load_follows_save:
  "loads_after cs st = map (\<lambda>c. Inr ((progress st)\<lparr>last_chunk := c\<rparr>)) cs \<and>
   loaded_values cs st = cs \<and>
   sorted (last_chunk (progress st) # loaded_values cs st) = sorted (last_chunk (progress st) # cs)"
  by (simp add: loads_after_eq loaded_values_eq)

text \<open>C8 as stated fails: saving 5 and then 3 makes the loaded value go from 5 to 3.\<close>

theorem load_decreases_counterexample:
  "\<not> sorted (loaded_values [5, 3] example_state)"
  by (simp add: loaded_values_def save_progress_fields load_progress_def json_load_def)

text \<open>
  C9, as amended. A save is not atomic. A process that dies before the file is opened
  leaves the old record; one that dies after \<^verbatim>\<open>open(..., 'w')\<close> has truncated the file
  and before the dump is written out leaves a file that a later load cannot parse; only
  a save that completes leaves the new record.
\<close>

theorem crashed_save_load:
  "load_progress (disk (save_progress_crashed k c st)) =
     (if k \<le> 1 then load_progress (disk st)
      else if k = 2 then Inl JSONDecodeError
      else Inr ((progress st)\<lparr>last_chunk := c\<rparr>))"
proof -
  have a: "load_progress (disk (save_assign c st)) = load_progress (disk st)"
    by (simp add: save_assign_def load_progress_def)
  have b: "load_progress (disk (save_open (save_assign c st))) = Inl JSONDecodeError"
    by (simp add: save_assign_def save_open_def load_progress_def json_load_def)
  show ?thesis
    by (simp add: save_progress_crashed_def a b load_after_save)
qed

text \<open>C9 as stated fails: after a crash between the truncation and the dump, a load
  returns neither the old record nor the new one.\<close>

theorem crashed_save_counterexample:
  "\<not> (load_progress (disk (save_progress_crashed 2 7 example_state)) = load_progress (disk example_state) \<or>
      load_progress (disk (save_progress_crashed 2 7 example_state)) =
        Inr ((progress example_state)\<lparr>last_chunk := 7\<rparr>))"
  by (simp add: save_progress_crashed_def save_assign_def save_open_def load_progress_def
      json_load_def example_state_def)

subsection \<open>Scan driver\<close>




text \<open>
  C2. Take a disk on which the year is not finished, the raster opens, the checkpoint
  file (if any) is complete and the chunk size is not zero. Kill a scan when \<open>k\<close>
  passes through the loop body are complete, then run the scan again on the disk that is
  left. Both runs return; the disk after the resumed run is the disk after one
  uninterrupted run, chunk files included; the actions of the uninterrupted run are
  those of the killed run followed by those of the resumed run; and the resumed run
  reads exactly the windows whose number is above the checkpoint it loaded, each with
  its write and save. That checkpoint is \<open>k\<close> (at most the number of windows) when
  this is positive and above the checkpoint the killed run started from, and the
  checkpoint the killed run started from otherwise.
\<close>

theorem scan_resume:
  assumes "progress_json d \<noteq> Some Incomplete" "tif d = Some (Raster src)"
    "chunk_size self \<noteq> 0" "\<not> final_csv_gz d"
  shows "\<exists>st1 st2 st3 cp cp0.
           load_progress d = Inr cp0 \<and>
           run_scan_killed k self d = Inr st1 \<and> load_progress (disk st1) = Inr cp \<and>
           last_chunk cp =
             (if 0 < min k (length (numbered_windows self src)) \<and>
                 last_chunk cp0 < int (min k (length (numbered_windows self src)))
              then int (min k (length (numbered_windows self src))) else last_chunk cp0) \<and>
           run_scan self (disk st1) = Inr st2 \<and> run_scan self d = Inr st3 \<and>
           chunk_files (disk st2) = chunk_files (disk st3) \<and> disk st2 = disk st3 \<and>
           trace st3 = trace st1 @ trace st2 \<and>
           trace st2 = concat (map (window_events self src)
                         (filter (\<lambda>(n, win). last_chunk cp < n) (numbered_windows self src))) \<and>
           read_chunks (trace st2) =
             filter (\<lambda>n. last_chunk cp < n) (map fst (numbered_windows self src))"
proof -
  obtain p where lp: "load_progress d = Inr p"
    and i0: "init d = Inr \<lparr>progress = p, disk = d\<lparr>chunks_dir := True\<rparr>, chunk_num = 0, trace = []\<rparr>"
    using init_ok[OF assms(1)] by blast
  let ?st0 = "\<lparr>progress = p, disk = d\<lparr>chunks_dir := True\<rparr>, chunk_num = 0, trace = []\<rparr>"
  let ?ps = "loop_positions self src"
  let ?s0 = "last_chunk p"
  let ?st1 = "fold (W self src ?s0) (take k ?ps) ?st0"
  let ?st1' = "\<lparr>progress = progress ?st1, disk = disk ?st1, chunk_num = 0, trace = []\<rparr>"
  let ?st2 = "fold (W self src (last_chunk (progress ?st1))) ?ps ?st1'"
  let ?st3 = "fold (W self src ?s0) ?ps ?st0"
  have pre0: "\<not> final_csv_gz (disk ?st0)" "tif (disk ?st0) = Some (Raster src)"
    using assms by simp_all
  have r3: "run_scan self d = Inr ?st3"
    using process_flat[OF pre0 assms(3)] by (simp add: run_scan_def i0)
  have r1: "run_scan_killed k self d = Inr ?st1"
    using process_killed_flat[OF pre0 assms(3)] by (simp add: run_scan_killed_def i0)
  have inv0: "load_progress (disk ?st0) = Inr (progress ?st0)"
    using lp by (simp add: load_progress_def)
  have l1: "load_progress (disk ?st1) = Inr (progress ?st1)"
    by (rule fold_W_inv[OF inv0])
  have fr: "tif (disk ?st1) = Some (Raster src)" "\<not> final_csv_gz (disk ?st1)" "chunks_dir (disk ?st1)"
    using fold_W_frame[of self src ?s0 "take k ?ps" ?st0] assms by simp_all
  have "(disk ?st1)\<lparr>chunks_dir := True\<rparr> = disk ?st1" using fr(3) by simp
  then have i1: "init (disk ?st1) = Inr ?st1'"
    using l1 by (simp add: init_def Let_def)
  have pre1: "\<not> final_csv_gz (disk ?st1')" "tif (disk ?st1') = Some (Raster src)"
    using fr by simp_all
  have r2: "run_scan self (disk ?st1) = Inr ?st2"
    using process_flat[OF pre1 assms(3)] by (simp add: run_scan_def i1)
  have core: "disk ?st2 = disk ?st3 \<and> progress ?st2 = progress ?st3 \<and> trace ?st3 = trace ?st1 @ trace ?st2"
    by (rule resume_core) simp_all
  have t2: "trace ?st2 = concat (map (window_events self src)
                         (filter (\<lambda>(n, win). last_chunk (progress ?st1) < n) (numbered_windows self src)))"
    by (simp add: fold_W_trace numbered_windows_positions)
  have rc: "read_chunks (trace ?st2) =
             filter (\<lambda>n. last_chunk (progress ?st1) < n) (map fst (numbered_windows self src))"
    unfolding t2 by (simp only: read_chunks_concat map_fst_filter)
  have cf: "chunk_files (disk ?st2) = chunk_files (disk ?st3)" using core by simp
  have lc: "last_chunk (progress ?st1) =
             (if 0 < min k (length (numbered_windows self src)) \<and>
                 last_chunk p < int (min k (length (numbered_windows self src)))
              then int (min k (length (numbered_windows self src))) else last_chunk p)"
    using fold_W_last_chunk[of ?st0 ?s0 self src "take k ?ps"]
    by (simp add: length_numbered_windows min.commute)
  show ?thesis
    apply (rule exI[of _ ?st1], rule exI[of _ ?st2], rule exI[of _ ?st3],
        rule exI[of _ "progress ?st1"], rule exI[of _ p])
    using lp r1 l1 lc r2 r3 core cf t2 rc by (intro conjI) blast+
qed

theorem scan_resume_witness:
  "\<exists>st1 st2 st3 cp cp0.
     load_progress example_fs = Inr cp0 \<and>
     run_scan_killed 2 example_processor example_fs = Inr st1 \<and>
     load_progress (disk st1) = Inr cp \<and>
     last_chunk cp =
       (if 0 < min 2 (length (numbered_windows example_processor example_raster)) \<and>
           last_chunk cp0 < int (min 2 (length (numbered_windows example_processor example_raster)))
        then int (min 2 (length (numbered_windows example_processor example_raster)))
        else last_chunk cp0) \<and>
     run_scan example_processor (disk st1) = Inr st2 \<and>
     run_scan example_processor example_fs = Inr st3 \<and>
     chunk_files (disk st2) = chunk_files (disk st3) \<and> disk st2 = disk st3 \<and>
     trace st3 = trace st1 @ trace st2 \<and>
     trace st2 = concat (map (window_events example_processor example_raster)
                   (filter (\<lambda>(n, win). last_chunk cp < n)
                      (numbered_windows example_processor example_raster))) \<and>
     read_chunks (trace st2) =
       filter (\<lambda>n. last_chunk cp < n) (map fst (numbered_windows example_processor example_raster))"
proof -
  have "progress_json example_fs \<noteq> Some Incomplete" "tif example_fs = Some (Raster example_raster)"
    "chunk_size example_processor \<noteq> 0" "\<not> final_csv_gz example_fs"
    by (simp_all add: example_fs_def example_processor_def)
  then show ?thesis by (rule scan_resume)
qed

text \<open>
  C4. For a positive height, width and chunk size: the number of windows is
  \<^verbatim>\<open>total_chunks\<close>, which is the product of the two ceilings; every cell of the grid
  lies in exactly one window and no window reaches outside the grid; and the window at
  position \<open>i\<close> of the loop order is the one of row band \<open>i div ncols\<close> and column band
  \<open>i mod ncols\<close> (rows outside, columns inside), cut to what is left of the grid.
\<close>

theorem scan_windows_tile:
  assumes "0 < h" "0 < w" "0 < cs"
  shows "length (scan_windows h w cs) = nat (total_chunks h w cs) \<and>
         total_chunks h w cs =
           \<lceil>real_of_int h / real_of_int cs\<rceil> * \<lceil>real_of_int w / real_of_int cs\<rceil> \<and>
         (\<forall>r c. 0 \<le> r \<and> r < h \<and> 0 \<le> c \<and> c < w \<longrightarrow>
            (\<exists>!i. i < length (scan_windows h w cs) \<and> in_window (scan_windows h w cs ! i) r c)) \<and>
         (\<forall>i r c. i < length (scan_windows h w cs) \<and> in_window (scan_windows h w cs ! i) r c \<longrightarrow>
            0 \<le> r \<and> r < h \<and> 0 \<le> c \<and> c < w) \<and>
         (\<forall>i. i < length (scan_windows h w cs) \<longrightarrow>
            scan_windows h w cs ! i =
              \<lparr>col_off = int (i mod ncell w cs) * cs, row_off = int (i div ncell w cs) * cs,
               width = min cs (w - int (i mod ncell w cs) * cs),
               height = min cs (h - int (i div ncell w cs) * cs)\<rparr>)"
proof -
  have len: "length (scan_windows h w cs) = ncell h cs * ncell w cs"
    by (rule length_scan_windows[OF assms(3)])
  have a: "length (scan_windows h w cs) = nat (total_chunks h w cs)"
    using assms by (simp add: len total_chunks_ncell)
  have b: "total_chunks h w cs =
           \<lceil>real_of_int h / real_of_int cs\<rceil> * \<lceil>real_of_int w / real_of_int cs\<rceil>"
    by (simp add: total_chunks_def ceil_div[OF assms(3)])
  have c: "\<forall>r c. 0 \<le> r \<and> r < h \<and> 0 \<le> c \<and> c < w \<longrightarrow>
            (\<exists>!i. i < length (scan_windows h w cs) \<and> in_window (scan_windows h w cs ! i) r c)"
    using tiling_unique[OF assms(3)] by blast
  have d: "\<forall>i r c. i < length (scan_windows h w cs) \<and> in_window (scan_windows h w cs ! i) r c \<longrightarrow>
            0 \<le> r \<and> r < h \<and> 0 \<le> c \<and> c < w"
    using in_window_inside[OF assms(3)] unfolding len by blast
  have e: "\<forall>i. i < length (scan_windows h w cs) \<longrightarrow>
            scan_windows h w cs ! i =
              \<lparr>col_off = int (i mod ncell w cs) * cs, row_off = int (i div ncell w cs) * cs,
               width = min cs (w - int (i mod ncell w cs) * cs),
               height = min cs (h - int (i div ncell w cs) * cs)\<rparr>"
    using nth_scan_windows[OF assms(3)] unfolding len by blast
  show ?thesis using a b c d e by blast
qed

theorem scan_windows_tile_witness:
  "length (scan_windows 3 5 2) = nat (total_chunks 3 5 2) \<and>
   total_chunks 3 5 2 = \<lceil>real_of_int 3 / real_of_int 2\<rceil> * \<lceil>real_of_int 5 / real_of_int 2\<rceil> \<and>
   (\<exists>!i. i < length (scan_windows 3 5 2) \<and> in_window (scan_windows 3 5 2 ! i) 2 4)"
proof -
  have p: "(0::int) < 3" "(0::int) < 5" "(0::int) < 2" by simp_all
  have q: "(0::int) \<le> 2 \<and> (2::int) < 3 \<and> (0::int) \<le> 4 \<and> (4::int) < 5" by simp
  from scan_windows_tile[OF p] q show ?thesis by blast
qed

text \<open>
  C3. On a disk where the scan runs (year not finished, raster opens, checkpoint file
  complete if present, chunk size not zero) the actions of the run are, for every window
  whose number is above the loaded checkpoint and in loop order: the read, then the
  write of the chunk file if the chunk has rows, then the save of the checkpoint with
  that window's number. Every window that is read has its save, with or without rows,
  and the numbers saved increase strictly from the loaded checkpoint. The chunk files
  and the checkpoint on disk at the end are those the actions give. At every point of
  the run (after every prefix of the actions) the checkpoint is at most the highest
  chunk number whose output is on disk, the chunks up to the loaded checkpoint counting
  as written before the run.
\<close>

theorem scan_order:
  assumes "progress_json d \<noteq> Some Incomplete" "tif d = Some (Raster src)"
    "chunk_size self \<noteq> 0" "\<not> final_csv_gz d"
  shows "\<exists>st cp evs.
           load_progress d = Inr cp \<and> run_scan self d = Inr st \<and>
           evs = concat (map (window_events self src)
                   (filter (\<lambda>(n, win). last_chunk cp < n) (numbered_windows self src))) \<and>
           trace st = evs \<and>
           saved_chunks evs = read_chunks evs \<and>
           sorted_wrt (<) (last_chunk cp # saved_chunks evs) \<and>
           chunk_files (disk st) = files_after (chunk_files d) evs \<and>
           load_progress (disk st) = Inr (cp\<lparr>last_chunk := checkpoint_after (last_chunk cp) evs\<rparr>) \<and>
           (\<forall>i. checkpoint_after (last_chunk cp) (take i evs) \<le>
                written_upto self src (last_chunk cp) (take i evs))"
proof -
  obtain p where lp: "load_progress d = Inr p"
    and i0: "init d = Inr \<lparr>progress = p, disk = d\<lparr>chunks_dir := True\<rparr>, chunk_num = 0, trace = []\<rparr>"
    using init_ok[OF assms(1)] by blast
  let ?ini = "\<lparr>progress = p, disk = d\<lparr>chunks_dir := True\<rparr>, chunk_num = 0, trace = []\<rparr>"
  let ?st = "fold (W self src (last_chunk p)) (loop_positions self src) ?ini"
  let ?evs = "concat (map (window_events self src)
                   (filter (\<lambda>(n, win). last_chunk p < n) (numbered_windows self src)))"
  have pre0: "\<not> final_csv_gz (disk ?ini)" "tif (disk ?ini) = Some (Raster src)"
    using assms by simp_all
  have r: "run_scan self d = Inr ?st"
    using process_flat[OF pre0 assms(3)] by (simp add: run_scan_def i0)
  have t: "trace ?st = ?evs" by (simp add: fold_W_trace numbered_windows_positions)
  have sr: "saved_chunks ?evs = read_chunks ?evs"
    by (simp only: saved_chunks_concat read_chunks_concat)
  have so: "sorted_wrt (<) (last_chunk p # saved_chunks ?evs)"
    unfolding saved_chunks_concat map_fst_filter numbered_windows_def by (rule sorted_saves)
  have f: "chunk_files (disk ?st) = files_after (chunk_files d) ?evs"
    by (simp add: fold_W_files numbered_windows_positions)
  have inv0: "load_progress (disk ?ini) = Inr (progress ?ini)"
    using lp by (simp add: load_progress_def)
  have l: "load_progress (disk ?st) = Inr (p\<lparr>last_chunk := checkpoint_after (last_chunk p) ?evs\<rparr>)"
    using fold_W_inv[OF inv0, of self src "last_chunk p" "loop_positions self src"]
    by (simp add: fold_W_progress numbered_windows_positions)
  have inv: "\<forall>i. checkpoint_after (last_chunk p) (take i ?evs) \<le>
                written_upto self src (last_chunk p) (take i ?evs)"
    using blocks_prefix[of "last_chunk p" "last_chunk p"] by simp
  show ?thesis
    apply (rule exI[of _ ?st], rule exI[of _ p], rule exI[of _ ?evs])
    using lp r t sr so f l inv by (intro conjI) blast+
qed

theorem scan_order_witness:
  "\<exists>st cp evs.
     load_progress example_fs = Inr cp \<and> run_scan example_processor example_fs = Inr st \<and>
     evs = concat (map (window_events example_processor example_raster)
             (filter (\<lambda>(n, win). last_chunk cp < n) (numbered_windows example_processor example_raster))) \<and>
     trace st = evs \<and>
     saved_chunks evs = read_chunks evs \<and>
     sorted_wrt (<) (last_chunk cp # saved_chunks evs) \<and>
     chunk_files (disk st) = files_after (chunk_files example_fs) evs \<and>
     load_progress (disk st) = Inr (cp\<lparr>last_chunk := checkpoint_after (last_chunk cp) evs\<rparr>) \<and>
     (\<forall>i. checkpoint_after (last_chunk cp) (take i evs) \<le>
          written_upto example_processor example_raster (last_chunk cp) (take i evs))"
proof -
  have "progress_json example_fs \<noteq> Some Incomplete" "tif example_fs = Some (Raster example_raster)"
    "chunk_size example_processor \<noteq> 0" "\<not> final_csv_gz example_fs"
    by (simp_all add: example_fs_def example_processor_def)
  then show ?thesis by (rule scan_order)
qed

subsection \<open>Chunk extractor\<close>

text \<open>
  C5. When the read of the window succeeds and gives an array of the window's shape,
  the extractor returns one row for each cell of the window whose value is above 0 and
  whose native coordinate lies inside the region, in row-major order, and nothing else;
  with no such cell it returns no chunk. The cells of the window are listed once each.
  In particular a window whose values are all at most 0 gives no chunk.
\<close>

theorem process_chunk_cells:
  assumes "src_read src w = Some data" "length data = nat (height w)"
    "\<forall>row\<in>set data. length row = nat (width w)"
  shows "distinct (meshgrid_ravel w) \<and> set (meshgrid_ravel w) = {(r, c). in_window w r c} \<and>
         process_chunk self src w =
           (let cells = filter (\<lambda>(r, c). 0 < data ! nat (r - row_off w) ! nat (c - col_off w) \<and>
                                   is_in_california self (src_xy src r c)) (meshgrid_ravel w)
            in if cells = [] then None
               else Some (map (\<lambda>(r, c). make_row self src
                            (data ! nat (r - row_off w) ! nat (c - col_off w)) (r, c)) cells)) \<and>
         ((\<forall>(r, c)\<in>set (meshgrid_ravel w). data ! nat (r - row_off w) ! nat (c - col_off w) \<le> 0) \<longrightarrow>
            process_chunk self src w = None)"
proof -
  let ?val = "\<lambda>r c. data ! nat (r - row_off w) ! nat (c - col_off w)"
  let ?cells = "filter (\<lambda>(r, c). 0 < ?val r c \<and> is_in_california self (src_xy src r c)) (meshgrid_ravel w)"
  have e: "process_chunk self src w =
           (if ?cells = [] then None
            else Some (map (\<lambda>(r, c). make_row self src (?val r c) (r, c)) ?cells))"
    by (rule process_chunk_eq[OF assms])
  have bg: "(\<forall>(r, c)\<in>set (meshgrid_ravel w). ?val r c \<le> 0) \<longrightarrow> process_chunk self src w = None"
  proof
    assume a: "\<forall>(r, c)\<in>set (meshgrid_ravel w). ?val r c \<le> 0"
    have "?cells = []"
      unfolding filter_empty_conv using a by fastforce
    then show "process_chunk self src w = None" unfolding e by simp
  qed
  show ?thesis
    using distinct_meshgrid_ravel[of w] set_meshgrid_ravel[of w] e bg
    by (simp only: Let_def)
qed

theorem process_chunk_cells_witness:
  "process_chunk example_processor example_raster \<lparr>col_off = 4, row_off = 2, width = 1, height = 1\<rparr> =
     Some [\<lparr>yr = 2008, crop_code = 1, longitude = - 116, latitude = 38, crop_name = Some ''Corn''\<rparr>] \<and>
   process_chunk example_processor example_raster \<lparr>col_off = 2, row_off = 0, width = 2, height = 2\<rparr> = None"
proof -
  let ?w = "\<lparr>col_off = 4, row_off = 2, width = 1, height = 1\<rparr>"
  let ?v = "\<lparr>col_off = 2, row_off = 0, width = 2, height = 2\<rparr>"
  have r1: "src_read example_raster ?w = Some [[1]]"
    by (simp add: example_raster_def example_pixel_def)
  have r2: "src_read example_raster ?v = Some [[0, 0], [0, 0]]"
    by (simp add: example_raster_def example_pixel_def upto_rec1)
  have m1: "meshgrid_ravel ?w = [(2, 4)]" by (simp add: meshgrid_ravel_def)
  have m2: "meshgrid_ravel ?v = [(0, 2), (0, 3), (1, 2), (1, 3)]"
    by (simp add: meshgrid_ravel_def upto_rec1)
  have ca: "is_in_california example_processor (src_xy example_raster 2 4)"
    by (simp add: is_in_california_def get_ca_bounds_5070_def example_processor_def
        example_raster_def CA_BOUNDS_def)
  have mr: "make_row example_processor example_raster 1 (2, 4) =
     \<lparr>yr = 2008, crop_code = 1, longitude = - 116, latitude = 38, crop_name = Some ''Corn''\<rparr>"
    by (simp add: make_row_def example_processor_def example_raster_def CDL_CROP_MAPPING_def)
  have a: "process_chunk example_processor example_raster ?w =
     Some [\<lparr>yr = 2008, crop_code = 1, longitude = - 116, latitude = 38, crop_name = Some ''Corn''\<rparr>]"
    using process_chunk_cells[of example_raster ?w "[[1]]" example_processor] r1
    by (simp add: m1 ca mr)
  have b: "process_chunk example_processor example_raster ?v = None"
    using process_chunk_cells[of example_raster ?v "[[0, 0], [0, 0]]" example_processor] r2
    by (simp add: m2)
  show ?thesis using a b by simp
qed

subsection \<open>Merge\<close>






end
